theory Spec2Isabelle
  imports Main "HOL-Library.Sublist"
begin

section \<open>Strings as the code uses them\<close>

text \<open>
  JavaScript strings are modelled as \<^typ>\<open>string\<close> (lists of 8-bit characters). The
  functions below are the string methods the application calls: \<open>trim\<close>, \<open>split\<close>,
  \<open>lastIndexOf\<close>, \<open>substring\<close>, \<open>join\<close> and the one regular-expression replacement of
  the naming client.
\<close>

definition is_ws :: "char \<Rightarrow> bool" where
  \<comment> \<open>White space and line terminators removed by \<open>String.prototype.trim\<close>, as far as
      they exist among 8-bit characters: TAB, LF, VT, FF, CR, SPACE, NBSP.\<close>
  "is_ws c = (c \<in> set [CHR 0x09, CHR 0x0A, CHR 0x0B, CHR 0x0C, CHR 0x0D, CHR 0x20, CHR 0xA0])"

definition trim :: "string \<Rightarrow> string" where
  "trim s = rev (dropWhile is_ws (rev (dropWhile is_ws s)))"

definition is_quote :: "char \<Rightarrow> bool" where
  \<comment> \<open>The character class \<open>["']\<close>.\<close>
  "is_quote c = (c = CHR 0x22 \<or> c = CHR 0x27)"

fun replace_edge_quotes :: "bool \<Rightarrow> string \<Rightarrow> string" where
  \<comment> \<open>\<open>text.replace(/^["']|["']$/g, '')\<close>: a left-to-right scan deleting every match. The
      flag says whether the scan is at index 0 (where \<open>^\<close> holds); \<open>$\<close> holds after the
      last character only, as the expression has no \<open>m\<close> flag.\<close>
  "replace_edge_quotes at_start [] = []"
| "replace_edge_quotes at_start (c # cs) =
     (if is_quote c \<and> (at_start \<or> cs = []) then replace_edge_quotes False cs
      else c # replace_edge_quotes False cs)"

definition strip_quotes :: "string \<Rightarrow> string" where
  "strip_quotes s = replace_edge_quotes True s"

fun split_on :: "char \<Rightarrow> string \<Rightarrow> string list" where
  \<comment> \<open>\<open>s.split(c)\<close> for a one-character separator; the result is never empty.\<close>
  "split_on c [] = [[]]"
| "split_on c (x # xs) =
     (if x = c then [] # split_on c xs
      else (case split_on c xs of [] \<Rightarrow> [[x]] | p # ps \<Rightarrow> (x # p) # ps))"

definition part :: "string list \<Rightarrow> nat \<Rightarrow> string option" where
  \<comment> \<open>Array indexing \<open>parts[i]\<close>; \<open>None\<close> is JavaScript's \<open>undefined\<close>.\<close>
  "part ps i = (if i < length ps then Some (ps ! i) else None)"

definition lastIndexOf :: "char \<Rightarrow> string \<Rightarrow> int" where
  "lastIndexOf c s =
     (case filter (\<lambda>i. s ! i = c) (rev [0..<length s]) of [] \<Rightarrow> - 1 | i # _ \<Rightarrow> int i)"

definition substring :: "string \<Rightarrow> int \<Rightarrow> string" where
  \<comment> \<open>\<open>s.substring(k)\<close>: a negative start counts as 0.\<close>
  "substring s k = drop (nat k) s"

fun join :: "string \<Rightarrow> string list \<Rightarrow> string" where
  "join sep [] = []"
| "join sep [p] = p"
| "join sep (p # q # ps) = p @ sep @ join sep (q # ps)"

function string_of_nat :: "nat \<Rightarrow> string" where
  \<comment> \<open>Decimal rendering of a number inside a template string.\<close>
  "string_of_nat n =
     (if n < 10 then [char_of (48 + n)]
      else string_of_nat (n div 10) @ [char_of (48 + n mod 10)])"
  by pat_completeness auto
termination
  by (relation "measure id") auto

section \<open>Naming request client (services/geminiService.ts)\<close>

datatype NameStyle = Artistic | Descriptive | ModernEdgy

datatype service_outcome =
    Response "string option"  \<comment> \<open>\<open>generateContent\<close> resolved; the argument is \<open>response.text\<close>\<close>
  | Failure                   \<comment> \<open>\<open>generateContent\<close> rejected\<close>

definition friendly_error :: string where
  "friendly_error = ''Failed to generate a name. The AI may be experiencing high traffic or the image could not be processed.''"

fun generateArtName ::
  "string option \<Rightarrow> string \<Rightarrow> NameStyle \<Rightarrow> service_outcome \<Rightarrow> string + string" where
  \<comment> \<open>The three arguments go into the one request to the service; the last parameter is
      what the service does with it. \<open>Inr\<close> is the name returned, \<open>Inl\<close> the message of the
      error thrown. Reading \<open>.trim\<close> of an absent text throws inside the \<open>try\<close> and is
      caught like a rejection.\<close>
  "generateArtName base64Data mimeType style (Response (Some text)) =
     Inr (strip_quotes (trim text))"
| "generateArtName base64Data mimeType style (Response None) = Inl friendly_error"
| "generateArtName base64Data mimeType style Failure = Inl friendly_error"

section \<open>Data model (App component)\<close>

datatype ImageStatus = Queued | Generating | Completed | Error

text \<open>
  \<open>ProcessedImage\<close>. The optional fields are options; \<open>base64\<close> is an option as well,
  since it is read as element 1 of a split and is \<open>undefined\<close> when the data URL has no
  comma.
\<close>

record ProcessedImage =
  img_id :: string
  base64 :: "string option"
  mimeType :: string
  name :: string
  status :: ImageStatus
  suggestedName :: "string option"
  img_error :: "string option"

datatype read_outcome =
    LoadEnd string   \<comment> \<open>\<open>onloadend\<close> with \<open>reader.result\<close>, a data URL\<close>
  | ReadError        \<comment> \<open>\<open>onerror\<close> came first\<close>

record File =
  file_type :: string
  file_name :: string
  reading :: read_outcome

record http_response =
  ok :: bool
  content_type :: "string option"
  blob_type :: string
  blob_reading :: read_outcome

datatype fetch_outcome =
    InvalidUrl                 \<comment> \<open>\<open>new URL(url)\<close> throws\<close>
  | FetchRejected              \<comment> \<open>\<open>fetch\<close> rejects\<close>
  | Responded http_response

record call =
  call_data :: "string option"
  call_mimeType :: string
  call_style :: NameStyle

datatype gen_result =
    CompletedResult string string   \<comment> \<open>\<open>{id, status: 'completed', suggestedName}\<close>\<close>
  | ErrorResult string string       \<comment> \<open>\<open>{id, status: 'error', error}\<close>\<close>

datatype 'a promise = Pending | Fulfilled 'a

text \<open>
  One invocation of \<open>handleGenerateAllNames\<close> that got past its early return: the images
  it captured, each with the state of its generation promise, the number of promises its
  \<open>for\<close> loop has awaited so far, and the style it captured.
\<close>

record batch =
  slots :: "(ProcessedImage \<times> gen_result promise) list"
  cursor :: nat
  batch_style :: NameStyle

datatype timer_action = ResetAll | ResetOne string

text \<open>
  The component's state (the seven \<open>useState\<close> cells) together with what its handlers
  reach outside: the clipboard, the timers set with \<open>setTimeout\<close>, the service calls
  issued, the invocations of \<open>handleGenerateAllNames\<close> in flight, and a log of the
  result updates applied to the list (invocation, slot, result).
\<close>

record app =
  images :: "ProcessedImage list"
  isLoading :: bool
  error :: string
  copiedStates :: "string \<rightharpoonup> bool"
  urlInput :: string
  isFetchingUrl :: bool
  nameStyle :: NameStyle
  clipboard :: "string option"
  timers :: "(nat \<times> timer_action) list"
  calls :: "call list"
  batches :: "batch list"
  updates :: "(nat \<times> nat \<times> gen_result) list"

definition initial :: app where
  "initial = \<lparr>images = [], isLoading = False, error = [], copiedStates = Map.empty,
     urlInput = [], isFetchingUrl = False, nameStyle = Artistic, clipboard = None,
     timers = [], calls = [], batches = [], updates = []\<rparr>"

section \<open>Image source adapter\<close>

definition data_url_payload :: "string \<Rightarrow> string option" where
  \<comment> \<open>\<open>(reader.result as string).split(',')[1]\<close>\<close>
  "data_url_payload r = part (split_on CHR '','' r) 1"

definition queued_image :: "string \<Rightarrow> string option \<times> string \<times> string \<Rightarrow> ProcessedImage" where
  \<comment> \<open>\<open>{...res, id, status: 'queued'}\<close>; the id (time stamp and random number) is given.\<close>
  "queued_image new_id res =
     (case res of (b, m, n) \<Rightarrow>
        \<lparr>img_id = new_id, base64 = b, mimeType = m, name = n, status = Queued,
         suggestedName = None, img_error = None\<rparr>)"

definition read_file :: "File \<Rightarrow> string + (string option \<times> string \<times> string)" where
  \<comment> \<open>The promise made for one accepted file: \<open>Inr\<close> its value, \<open>Inl\<close> the message of the
      error it rejects with.\<close>
  "read_file f =
     (case reading f of
        LoadEnd r \<Rightarrow> Inr (data_url_payload r, file_type f, file_name f)
      | ReadError \<Rightarrow> Inl (''Failed to read file: '' @ file_name f))"

fun promise_all :: "('e + 'a) list \<Rightarrow> 'e + 'a list" where
  \<comment> \<open>\<open>Promise.all\<close>: all values in order, or a rejection. Where several promises reject,
      the first of the list is taken as the one that rejected first.\<close>
  "promise_all [] = Inr []"
| "promise_all (Inl e # ps) = Inl e"
| "promise_all (Inr a # ps) = (case promise_all ps of Inl e \<Rightarrow> Inl e | Inr as \<Rightarrow> Inr (a # as))"

definition processFiles :: "File list option \<Rightarrow> (nat \<Rightarrow> string) \<Rightarrow> app \<Rightarrow> app" where
  \<comment> \<open>\<open>mk_id k\<close> is the id generated for the \<open>k\<close>-th result. The reads are taken to settle
      before any other handler runs.\<close>
  "processFiles files mk_id s =
     (case files of
        None \<Rightarrow> s
      | Some fs \<Rightarrow>
          let s1 = s\<lparr>error := []\<rparr>;
              filePromises = map (\<lambda>f. if \<not> prefix ''image/'' (file_type f) then None
                                       else Some (read_file f)) fs
          in (case promise_all (List.map_filter (\<lambda>p. p) filePromises) of
                Inr results \<Rightarrow>
                  s1\<lparr>images := images s1 @
                        map (\<lambda>(k, res). queued_image (mk_id k) res) (enumerate 0 results)\<rparr>
              | Inl message \<Rightarrow> s1\<lparr>error := message\<rparr>))"

definition fileName_of_url :: "string \<Rightarrow> string" where
  \<comment> \<open>\<open>url.substring(url.lastIndexOf('/') + 1).split('?')[0] || 'image-from-url'\<close>\<close>
  "fileName_of_url url =
     (case part (split_on CHR ''?'' (substring url (lastIndexOf CHR ''/'' url + 1))) 0 of
        None \<Rightarrow> ''image-from-url''
      | Some seg \<Rightarrow> if seg = [] then ''image-from-url'' else seg)"

definition fetch_url :: "string \<Rightarrow> string \<Rightarrow> fetch_outcome \<Rightarrow> string + ProcessedImage" where
  \<comment> \<open>The body of \<open>urls.map(async (url) => ...)\<close>: \<open>Inr\<close> the image, \<open>Inl\<close> the url of the
      \<open>{url, error}\<close> object returned from the \<open>catch\<close>.\<close>
  "fetch_url url new_id out =
     (case out of
        InvalidUrl \<Rightarrow> Inl url
      | FetchRejected \<Rightarrow> Inl url
      | Responded r \<Rightarrow>
          if \<not> ok r then Inl url
          else if (case content_type r of None \<Rightarrow> True
                   | Some ct \<Rightarrow> ct = [] \<or> \<not> prefix ''image/'' ct) then Inl url
          else (case blob_reading r of
                  ReadError \<Rightarrow> Inl url
                | LoadEnd res \<Rightarrow>
                    Inr \<lparr>img_id = new_id, base64 = data_url_payload res,
                         mimeType = blob_type r, name = fileName_of_url url, status = Queued,
                         suggestedName = None, img_error = None\<rparr>))"

definition urls_of :: "string \<Rightarrow> string list" where
  \<comment> \<open>\<open>urlInput.split('\n').map(u => u.trim()).filter(Boolean)\<close>\<close>
  "urls_of input = filter (\<lambda>u. u \<noteq> []) (map trim (split_on CHR 0x0A input))"

definition fetch_error_message :: "string list \<Rightarrow> string" where
  "fetch_error_message failed =
     ''Could not fetch '' @ string_of_nat (length failed) @
     '' image(s). The proxy may have failed or the URL is invalid.'' @ [CHR 0x0A, CHR 0x0A] @
     ''Please try downloading these images to your device and uploading them directly.'' @
     [CHR 0x0A, CHR 0x0A] @ ''Failed URLs:'' @ [CHR 0x0A] @
     join [CHR 0x0A] (map (\<lambda>u. ''- '' @ u) failed)"

definition handleFetchFromUrls :: "(nat \<Rightarrow> fetch_outcome) \<Rightarrow> (nat \<Rightarrow> string) \<Rightarrow> app \<Rightarrow> app" where
  \<comment> \<open>\<open>outcome k\<close> is what happens to the \<open>k\<close>-th url, \<open>mk_id k\<close> the id generated for it.
      The fetches are taken to settle before any other handler runs.\<close>
  "handleFetchFromUrls outcome mk_id s =
     (let urls = urls_of (urlInput s)
      in if urls = [] then s\<lparr>error := ''Please enter at least one image URL.''\<rparr>
         else
           let s1 = s\<lparr>isFetchingUrl := True, error := []\<rparr>;
               results = map (\<lambda>(k, url). fetch_url url (mk_id k) (outcome k)) (enumerate 0 urls);
               successfulFetches =
                 List.map_filter (\<lambda>r. case r of Inr img \<Rightarrow> Some img | Inl _ \<Rightarrow> None) results;
               failedFetches =
                 List.map_filter (\<lambda>r. case r of Inl u \<Rightarrow> Some u | Inr _ \<Rightarrow> None) results;
               s2 = (if successfulFetches \<noteq> []
                     then s1\<lparr>images := images s1 @ successfulFetches\<rparr> else s1);
               s3 = (if failedFetches \<noteq> []
                     then s2\<lparr>error := fetch_error_message failedFetches\<rparr> else s2)
           in s3\<lparr>urlInput := [], isFetchingUrl := False\<rparr>)"

section \<open>Batch orchestrator\<close>

fun result_id :: "gen_result \<Rightarrow> string" where
  "result_id (CompletedResult i n) = i"
| "result_id (ErrorResult i m) = i"

definition generation_result ::
  "ProcessedImage \<Rightarrow> NameStyle \<Rightarrow> service_outcome \<Rightarrow> gen_result" where
  \<comment> \<open>The value of one generation promise: the \<open>try\<close>/\<open>catch\<close> around \<open>generateArtName\<close>.\<close>
  "generation_result img style out =
     (case generateArtName (base64 img) (mimeType img) style out of
        Inr nm \<Rightarrow> CompletedResult (img_id img) nm
      | Inl message \<Rightarrow> ErrorResult (img_id img) message)"

fun merge_result :: "ProcessedImage \<Rightarrow> gen_result \<Rightarrow> ProcessedImage" where
  \<comment> \<open>\<open>{...img, ...result}\<close>\<close>
  "merge_result img (CompletedResult i n) =
     img\<lparr>img_id := i, status := Completed, suggestedName := Some n\<rparr>"
| "merge_result img (ErrorResult i m) =
     img\<lparr>img_id := i, status := Error, img_error := Some m\<rparr>"

definition apply_result :: "gen_result \<Rightarrow> ProcessedImage list \<Rightarrow> ProcessedImage list" where
  \<comment> \<open>\<open>prev.map(img => img.id === result.id ? {...img, ...result} : img)\<close>\<close>
  "apply_result result prev =
     map (\<lambda>img. if img_id img = result_id result then merge_result img result else img) prev"

definition handleGenerateAllNames :: "app \<Rightarrow> app" where
  \<comment> \<open>The part of the handler that runs before its first \<open>await\<close>: the early return, the
      three state updates, and the \<open>map\<close> that starts one service call per captured image.
      The list the handler reads (\<open>images\<close>) and the list its update receives (\<open>prev\<close>)
      are taken to be the same: the component has rendered since the last update.\<close>
  "handleGenerateAllNames s =
     (let imagesToProcess = filter (\<lambda>img. status img = Queued) (images s)
      in if length imagesToProcess = 0 then s
         else s\<lparr>isLoading := True, error := [],
                images := map (\<lambda>img. if status img = Queued then img\<lparr>status := Generating\<rparr>
                                      else img) (images s),
                calls := calls s @
                  map (\<lambda>img. \<lparr>call_data = base64 img, call_mimeType = mimeType img,
                                  call_style = nameStyle s\<rparr>) imagesToProcess,
                batches := batches s @
                  [\<lparr>slots = map (\<lambda>img. (img, Pending)) imagesToProcess, cursor = 0,
                    batch_style = nameStyle s\<rparr>]\<rparr>)"

definition settle :: "nat \<Rightarrow> nat \<Rightarrow> service_outcome \<Rightarrow> app \<Rightarrow> app" where
  \<comment> \<open>The service call of slot \<open>k\<close> of invocation \<open>b\<close> comes back: its generation promise
      is fulfilled. A promise settles once.\<close>
  "settle b k out s =
     (if b < length (batches s) then
        let B = batches s ! b
        in if k < length (slots B) \<and> snd (slots B ! k) = Pending
           then s\<lparr>batches := (batches s)
                    [b := B\<lparr>slots := (slots B)
                       [k := (fst (slots B ! k),
                              Fulfilled (generation_result (fst (slots B ! k))
                                           (batch_style B) out))]\<rparr>]\<rparr>
           else s
      else s)"

definition resume :: "nat \<Rightarrow> app \<Rightarrow> app" where
  \<comment> \<open>The \<open>for\<close> loop of invocation \<open>b\<close> goes on at its \<open>await\<close>: nothing happens while the
      awaited promise is pending; otherwise its result is applied, and after the last one
      \<open>setIsLoading(false)\<close> follows at once.\<close>
  "resume b s =
     (if b < length (batches s) then
        let B = batches s ! b; c = cursor B
        in if c < length (slots B) then
             (case snd (slots B ! c) of
                Pending \<Rightarrow> s
              | Fulfilled result \<Rightarrow>
                  let s1 = s\<lparr>images := apply_result result (images s),
                             batches := (batches s)[b := B\<lparr>cursor := Suc c\<rparr>],
                             updates := updates s @ [(b, c, result)]\<rparr>
                  in if Suc c = length (slots B) then s1\<lparr>isLoading := False\<rparr> else s1)
           else s
      else s)"

definition removeImage :: "string \<Rightarrow> app \<Rightarrow> app" where
  "removeImage i s = s\<lparr>images := filter (\<lambda>img. img_id img \<noteq> i) (images s)\<rparr>"

definition clearAll :: "app \<Rightarrow> app" where
  "clearAll s = s\<lparr>images := [], error := [], isLoading := False, copiedStates := Map.empty\<rparr>"

definition handleCopyToClipboard :: "string \<Rightarrow> string \<Rightarrow> app \<Rightarrow> app" where
  "handleCopyToClipboard i text s =
     s\<lparr>clipboard := Some text, copiedStates := (copiedStates s)(i \<mapsto> True),
       timers := timers s @ [(2000, ResetOne i)]\<rparr>"

definition truthy :: "string option \<Rightarrow> bool" where
  \<comment> \<open>A string-valued expression used as a condition: \<open>undefined\<close> and \<open>''\<close> are false.\<close>
  "truthy v = (case v of None \<Rightarrow> False | Some t \<Rightarrow> t \<noteq> [])"

definition in_template :: "string option \<Rightarrow> string" where
  \<comment> \<open>An optional string inside a template literal.\<close>
  "in_template v = (case v of None \<Rightarrow> ''undefined'' | Some t \<Rightarrow> t)"

definition handleCopyAll :: "app \<Rightarrow> app" where
  "handleCopyAll s =
     (let textToCopy =
            join [CHR 0x0A]
              (map (\<lambda>img. name img @ '': '' @ in_template (suggestedName img))
                 (filter (\<lambda>img. status img = Completed \<and> truthy (suggestedName img))
                    (images s)))
      in if textToCopy \<noteq> []
         then s\<lparr>clipboard := Some textToCopy, copiedStates := [''all'' \<mapsto> True],
                timers := timers s @ [(2000, ResetAll)]\<rparr>
         else s)"

fun fire :: "timer_action \<Rightarrow> app \<Rightarrow> app" where
  \<comment> \<open>The callbacks given to \<open>setTimeout\<close>.\<close>
  "fire ResetAll s = s\<lparr>copiedStates := [''all'' \<mapsto> False]\<rparr>"
| "fire (ResetOne i) s = s\<lparr>copiedStates := (copiedStates s)(i \<mapsto> False)\<rparr>"

definition timeout :: "nat \<Rightarrow> app \<Rightarrow> app" where
  \<comment> \<open>The \<open>k\<close>-th timer that is set expires.\<close>
  "timeout k s =
     (if k < length (timers s)
      then fire (snd (timers s ! k)) (s\<lparr>timers := take k (timers s) @ drop (Suc k) (timers s)\<rparr>)
      else s)"

section \<open>The application as a transition system\<close>

text \<open>
  Everything runs on one thread, so the application's behaviour is a sequence of events:
  a handler called by the user, a service call coming back, a suspended loop going on, a
  timer expiring. Events may come in any order.
\<close>

datatype event =
    ProcessFiles "File list option" "nat \<Rightarrow> string"
  | SetUrlInput string
  | FetchFromUrls "nat \<Rightarrow> fetch_outcome" "nat \<Rightarrow> string"
  | SetNameStyle NameStyle
  | GenerateAll
  | Settle nat nat service_outcome
  | Resume nat
  | RemoveImage string
  | ClearAll
  | CopyToClipboard string string
  | CopyAll
  | Timeout nat
  | DismissError

fun step :: "event \<Rightarrow> app \<Rightarrow> app" where
  "step (ProcessFiles files mk_id) s = processFiles files mk_id s"
| "step (SetUrlInput text) s = s\<lparr>urlInput := text\<rparr>"
| "step (FetchFromUrls outcome mk_id) s = handleFetchFromUrls outcome mk_id s"
| "step (SetNameStyle style) s = s\<lparr>nameStyle := style\<rparr>"
| "step GenerateAll s = handleGenerateAllNames s"
| "step (Settle b k out) s = settle b k out s"
| "step (Resume b) s = resume b s"
| "step (RemoveImage i) s = removeImage i s"
| "step ClearAll s = clearAll s"
| "step (CopyToClipboard i text) s = handleCopyToClipboard i text s"
| "step CopyAll s = handleCopyAll s"
| "step (Timeout k) s = timeout k s"
| "step DismissError s = s\<lparr>error := []\<rparr>"

fun run :: "event list \<Rightarrow> app \<Rightarrow> app" where
  "run [] s = s"
| "run (e # es) s = run es (step e s)"

fun network_event :: "event \<Rightarrow> bool" where
  \<comment> \<open>The events that belong to invocations in flight; all others are user actions or
      timers.\<close>
  "network_event (Settle b k out) = True"
| "network_event (Resume b) = True"
| "network_event _ = False"

definition known_ids :: "app \<Rightarrow> string set" where
  \<comment> \<open>The ids of the images in the list and of those captured by an invocation.\<close>
  "known_ids s =
     img_id ` set (images s) \<union> (\<Union>B \<in> set (batches s). img_id ` fst ` set (slots B))"

definition fresh_supply :: "(nat \<Rightarrow> string) \<Rightarrow> nat \<Rightarrow> app \<Rightarrow> bool" where
  "fresh_supply mk_id n s =
     (distinct (map mk_id [0..<n]) \<and> set (map mk_id [0..<n]) \<inter> known_ids s = {})"

fun fresh :: "event \<Rightarrow> app \<Rightarrow> bool" where
  \<comment> \<open>What is assumed of \<open>Date.now()\<close> and \<open>Math.random()\<close>: the ids generated by one event
      differ from each other and from every id in use.\<close>
  "fresh (ProcessFiles files mk_id) s =
     fresh_supply mk_id (case files of None \<Rightarrow> 0 | Some fs \<Rightarrow> length fs) s"
| "fresh (FetchFromUrls outcome mk_id) s = fresh_supply mk_id (length (urls_of (urlInput s))) s"
| "fresh _ s = True"

fun fresh_run :: "event list \<Rightarrow> app \<Rightarrow> bool" where
  "fresh_run [] s = True"
| "fresh_run (e # es) s = (fresh e s \<and> fresh_run es (step e s))"

fun forward :: "ImageStatus \<Rightarrow> ImageStatus \<Rightarrow> bool" where
  "forward Queued Generating = True"
| "forward Generating Completed = True"
| "forward Generating Error = True"
| "forward _ _ = False"

definition lifecycle_step :: "app \<Rightarrow> app \<Rightarrow> bool" where
  \<comment> \<open>Between two successive states, an image still in the list (the image with the same
      id) keeps its status or moves forward, and an image new to the list is queued.\<close>
  "lifecycle_step s s' =
     (\<forall>img' \<in> set (images s').
        (\<forall>img \<in> set (images s). img_id img = img_id img' \<longrightarrow>
           status img' = status img \<or> forward (status img) (status img')) \<and>
        (img_id img' \<notin> img_id ` set (images s) \<longrightarrow> status img' = Queued))"

fun lifecycle_run :: "event list \<Rightarrow> app \<Rightarrow> bool" where
  "lifecycle_run [] s = True"
| "lifecycle_run (e # es) s = (lifecycle_step s (step e s) \<and> lifecycle_run es (step e s))"

definition batch_log :: "nat \<Rightarrow> app \<Rightarrow> nat list" where
  \<comment> \<open>The slots of invocation \<open>b\<close> whose results have been applied, in the order of
      application.\<close>
  "batch_log b s = map (\<lambda>u. fst (snd u)) (filter (\<lambda>u. fst u = b) (updates s))"

section \<open>The specification's wording, for comparison\<close>

definition spec_display_name :: "string \<Rightarrow> string" where
  \<comment> \<open>The url without its query string (everything from the first question mark on),
      and of that the text after the last slash: the last path segment. The placeholder
      when that is empty.\<close>
  "spec_display_name url =
     (let path = takeWhile (\<lambda>c. c \<noteq> CHR ''?'') url;
          seg = rev (takeWhile (\<lambda>c. c \<noteq> CHR ''/'') (rev path))
      in if seg = [] then ''image-from-url'' else seg)"

definition spec_copy_all_text :: "ProcessedImage list \<Rightarrow> string" where
  \<comment> \<open>One line \<open>name: suggestedName\<close> for every completed item, joined by newlines.\<close>
  "spec_copy_all_text imgs =
     join [CHR 0x0A]
       (map (\<lambda>img. name img @ '': '' @ in_template (suggestedName img))
          (filter (\<lambda>img. status img = Completed) imgs))"

section \<open>Invariants and auxiliary notions\<close>

text \<open>
  Names for the pieces of the handlers that the proofs talk about, and the invariants of
  the transition system.
\<close>

definition start_generating :: "ProcessedImage \<Rightarrow> ProcessedImage" where
  \<comment> \<open>The function mapped over the list when a generation starts.\<close>
  "start_generating img = (if status img = Queued then img\<lparr>status := Generating\<rparr> else img)"

definition new_batch :: "NameStyle \<Rightarrow> ProcessedImage list \<Rightarrow> batch" where
  \<comment> \<open>The invocation record that \<open>handleGenerateAllNames\<close> adds.\<close>
  "new_batch style imgs =
     \<lparr>slots = map (\<lambda>img. (img, Pending)) (filter (\<lambda>img. status img = Queued) imgs),
      cursor = 0, batch_style = style\<rparr>"

definition settled :: "batch \<Rightarrow> nat \<Rightarrow> service_outcome \<Rightarrow> batch" where
  \<comment> \<open>The invocation record after the promise of slot \<open>k\<close> is fulfilled.\<close>
  "settled B k out =
     B\<lparr>slots := (slots B)
        [k := (fst (slots B ! k),
               Fulfilled (generation_result (fst (slots B ! k)) (batch_style B) out))]\<rparr>"

definition pending :: "batch list \<Rightarrow> nat \<Rightarrow> nat \<Rightarrow> bool" where
  \<comment> \<open>Slot \<open>k\<close> of invocation \<open>b\<close> exists and its result has not been applied yet.\<close>
  "pending bs b k = (b < length bs \<and> cursor (bs ! b) \<le> k \<and> k < length (slots (bs ! b)))"

definition slot_id :: "batch list \<Rightarrow> nat \<Rightarrow> nat \<Rightarrow> string" where
  "slot_id bs b k = img_id (fst (slots (bs ! b) ! k))"

definition slot_ids :: "batch list \<Rightarrow> string set" where
  "slot_ids bs = (\<Union>B \<in> set bs. img_id ` fst ` set (slots B))"

definition tagged :: "batch list \<Rightarrow> bool" where
  \<comment> \<open>A fulfilled promise holds a result with the id of the image of its slot.\<close>
  "tagged bs =
     (\<forall>b < length bs. \<forall>k < length (slots (bs ! b)). \<forall>r.
        snd (slots (bs ! b) ! k) = Fulfilled r \<longrightarrow> result_id r = slot_id bs b k)"

definition consistent :: "ProcessedImage list \<Rightarrow> batch list \<Rightarrow> bool" where
  \<comment> \<open>The ids in the list differ; no two results that are still to be applied have the
      same id; an image that still awaits its result is generating.\<close>
  "consistent imgs bs =
     (distinct (map img_id imgs) \<and>
      (\<forall>b k b' k'. pending bs b k \<and> pending bs b' k' \<and> slot_id bs b k = slot_id bs b' k'
          \<longrightarrow> b = b' \<and> k = k') \<and>
      (\<forall>img \<in> set imgs. \<forall>b k. pending bs b k \<and> slot_id bs b k = img_id img
          \<longrightarrow> status img = Generating) \<and>
      tagged bs)"

definition lifecycle_lists :: "ProcessedImage list \<Rightarrow> ProcessedImage list \<Rightarrow> bool" where
  "lifecycle_lists imgs imgs' =
     (\<forall>img' \<in> set imgs'.
        (\<forall>img \<in> set imgs. img_id img = img_id img' \<longrightarrow>
           status img' = status img \<or> forward (status img) (status img')) \<and>
        (img_id img' \<notin> img_id ` set imgs \<longrightarrow> status img' = Queued))"

definition log_inv :: "app \<Rightarrow> bool" where
  \<comment> \<open>The log holds, for every invocation, exactly the slots below its cursor, in
      increasing order, each with a result that carries the id of its slot.\<close>
  "log_inv s =
     (tagged (batches s) \<and>
      (\<forall>b < length (batches s). cursor (batches s ! b) \<le> length (slots (batches s ! b)) \<and>
          batch_log b s = [0..<cursor (batches s ! b)]) \<and>
      (\<forall>u \<in> set (updates s). fst u < length (batches s) \<and>
          fst (snd u) < cursor (batches s ! fst u) \<and>
          result_id (snd (snd u)) = slot_id (batches s) (fst u) (fst (snd u))) \<and>
      (\<forall>q < length (updates s). \<forall>p < q. fst (updates s ! p) = fst (updates s ! q) \<longrightarrow>
          fst (snd (updates s ! p)) < fst (snd (updates s ! q))))"

definition in_flight :: "nat \<Rightarrow> nat \<Rightarrow> nat \<Rightarrow> call list \<Rightarrow> app \<Rightarrow> bool" where
  \<comment> \<open>Invocation \<open>b\<close>, with \<open>n\<close> slots, is the last one and the only one not finished;
      \<open>u\<close> updates were logged before it started and \<open>cs\<close> are the calls issued so far.\<close>
  "in_flight b n u cs s =
     (length (batches s) = Suc b \<and>
      (\<forall>b' < b. length (slots (batches s ! b')) \<le> cursor (batches s ! b')) \<and>
      length (slots (batches s ! b)) = n \<and>
      cursor (batches s ! b) \<le> n \<and>
      (isLoading s \<longleftrightarrow> cursor (batches s ! b) < n) \<and>
      length (updates s) = u + cursor (batches s ! b) \<and>
      calls s = cs)"

definition answered :: "nat \<Rightarrow> app \<Rightarrow> nat set" where
  \<comment> \<open>The slots of invocation \<open>b\<close> whose service call has come back.\<close>
  "answered b s =
     {j. j < length (slots (batches s ! b)) \<and> snd (slots (batches s ! b) ! j) \<noteq> Pending}"

fun carries :: "ProcessedImage \<Rightarrow> gen_result \<Rightarrow> bool" where
  \<comment> \<open>The item shows the result: the status and the name or the message of the result.\<close>
  "carries img (CompletedResult i n) = (status img = Completed \<and> suggestedName img = Some n)"
| "carries img (ErrorResult i m) = (status img = Error \<and> img_error img = Some m)"

definition finished :: "ProcessedImage \<Rightarrow> bool" where
  \<comment> \<open>The item has received its result.\<close>
  "finished img = (status img = Completed \<or> status img = Error)"

definition applied_inv :: "ProcessedImage list \<Rightarrow> batch list \<Rightarrow> bool" where
  \<comment> \<open>Every slot below the cursor of an invocation holds a result, and the item of the
      list with the id of that slot, if there is one, shows this result.\<close>
  "applied_inv imgs bs =
     (\<forall>b < length bs. \<forall>k < cursor (bs ! b).
        k < length (slots (bs ! b)) \<and>
        (\<exists>r. snd (slots (bs ! b) ! k) = Fulfilled r \<and>
             (\<forall>img \<in> set imgs. img_id img = slot_id bs b k \<longrightarrow> carries img r)))"

fun quiet :: "event \<Rightarrow> bool" where
  \<comment> \<open>Every event but the two that set the loading flag from outside a running pass:
      clear-all, whose button is never disabled, and a further generate-all.\<close>
  "quiet ClearAll = False"
| "quiet GenerateAll = False"
| "quiet _ = True"

section \<open>Example states and sessions\<close>

definition two_completed :: app where
  "two_completed = initial\<lparr>images :=
     [\<lparr>img_id = ''1'', base64 = Some ''AAAA'', mimeType = ''image/png'', name = ''a.png'',
       status = Completed, suggestedName = Some ''Dawn'', img_error = None\<rparr>,
      \<lparr>img_id = ''2'', base64 = Some ''BBBB'', mimeType = ''image/png'', name = ''b.png'',
       status = Completed, suggestedName = Some [], img_error = None\<rparr>]\<rparr>"

definition example_files :: "File list" where
  "example_files =
     [\<lparr>file_type = ''image/png'', file_name = ''a.png'',
       reading = LoadEnd ''data:image/png;base64,AAAA''\<rparr>,
      \<lparr>file_type = ''text/plain'', file_name = ''notes.txt'',
       reading = LoadEnd ''data:text/plain;base64,Tk8=''\<rparr>,
      \<lparr>file_type = ''image/jpeg'', file_name = ''b.jpg'',
       reading = LoadEnd ''data:image/jpeg;base64,BBBB''\<rparr>]"

definition example_id :: "nat \<Rightarrow> string" where
  "example_id k = ''img-'' @ string_of_nat k"

definition example_queued :: app where
  "example_queued =
     run [ProcessFiles (Some example_files) example_id, SetNameStyle Descriptive] initial"

definition example_replies :: "event list" where
  \<comment> \<open>The second call comes back first.\<close>
  "example_replies =
     [Settle 0 1 (Response (Some ([CHR 0x20, CHR 0x27] @ ''Dusk'' @ [CHR 0x27, CHR 0x0A]))),
      Resume 0, Settle 0 0 Failure, Resume 0, Resume 0]"

definition example_session :: "event list" where
  "example_session =
     [ProcessFiles (Some example_files) example_id, SetNameStyle Descriptive, GenerateAll] @
     example_replies @ [CopyAll, RemoveImage ''img-0'', Timeout 0, ClearAll]"

definition example_upload :: "event list" where
  "example_upload = [ProcessFiles (Some example_files) example_id, SetNameStyle Descriptive]"

definition later_files :: "File list" where
  "later_files =
     [\<lparr>file_type = ''image/png'', file_name = ''c.png'',
       reading = LoadEnd ''data:image/png;base64,CCCC''\<rparr>]"

definition later_id :: "nat \<Rightarrow> string" where
  "later_id k = ''later-'' @ string_of_nat k"

definition example_pass :: "event list" where
  \<comment> \<open>The second call comes back first, and a file is added while the pass runs.\<close>
  "example_pass =
     [Settle 0 1 (Response (Some ([CHR 0x20, CHR 0x27] @ ''Dusk'' @ [CHR 0x27, CHR 0x0A]))),
      Resume 0, ProcessFiles (Some later_files) later_id, Settle 0 0 Failure, Resume 0,
      CopyAll, Resume 0]"

definition abandoned_pass :: "event list" where
  \<comment> \<open>Generate, clear all while the call is out, add a file, generate again; then the
      call of the first pass comes back and the loop of the first pass goes on.\<close>
  "abandoned_pass =
     [ProcessFiles (Some (take 1 example_files)) example_id, GenerateAll, ClearAll,
      ProcessFiles (Some later_files) later_id, GenerateAll, Settle 0 0 Failure, Resume 0]"

section \<open>The naming client's clean-up of the returned text\<close>

lemma replace_edge_quotes_inner:
  "replace_edge_quotes False s = (if s \<noteq> [] \<and> is_quote (last s) then butlast s else s)"
  by (induction s) auto

lemma strip_quotes_ends:
  "strip_quotes s =
     (let s1 = (if s \<noteq> [] \<and> is_quote (hd s) then tl s else s)
      in if s1 \<noteq> [] \<and> is_quote (last s1) then butlast s1 else s1)"
  unfolding strip_quotes_def by (cases s) (auto simp: replace_edge_quotes_inner Let_def)

lemma strip_quotes_unquoted:
  "t = [] \<or> (\<not> is_quote (hd t) \<and> \<not> is_quote (last t)) \<Longrightarrow> strip_quotes t = t"
  by (auto simp: strip_quotes_ends)

lemma strip_quotes_both:
  "is_quote a \<Longrightarrow> is_quote b \<Longrightarrow> strip_quotes (a # body @ [b]) = body"
  by (simp add: strip_quotes_ends)

text \<open>
  Claim C6. When the trimmed text of the service is \<open>body\<close> between two equal straight
  quotes, the name returned, and stored as the item's \<open>suggestedName\<close>, is exactly
  \<open>body\<close>: one layer is stripped, whatever \<open>body\<close> itself begins or ends with. When the
  trimmed text neither begins nor ends with a quote, it is returned and stored as it is.
  On a text without a quote at either end the stripping changes nothing, so applying it
  twice is the same as applying it once.
\<close>

theorem generated_name_quotes_round_trip:
  "(is_quote q \<and> trim raw = q # body @ [q] \<longrightarrow>
      generateArtName data mime st (Response (Some raw)) = Inr body \<and>
      suggestedName (merge_result img (generation_result img st (Response (Some raw))))
        = Some body) \<and>
   ((trim raw = [] \<or> (\<not> is_quote (hd (trim raw)) \<and> \<not> is_quote (last (trim raw)))) \<longrightarrow>
      generateArtName data mime st (Response (Some raw)) = Inr (trim raw) \<and>
      suggestedName (merge_result img (generation_result img st (Response (Some raw))))
        = Some (trim raw)) \<and>
   ((t = [] \<or> (\<not> is_quote (hd t) \<and> \<not> is_quote (last t))) \<longrightarrow>
      strip_quotes t = t \<and> strip_quotes (strip_quotes t) = strip_quotes t)"
  by (auto simp: generation_result_def strip_quotes_both strip_quotes_unquoted)

theorem generated_name_quotes_round_trip_witness:
  "generateArtName (Some ''AAAA'') ''image/png'' Artistic
     (Response (Some ([CHR 0x20, CHR 0x22] @ ''Sunset'' @ [CHR 0x22, CHR 0x0A])))
     = Inr ''Sunset'' \<and>
   generateArtName (Some ''AAAA'') ''image/png'' Artistic
     (Response (Some ([CHR 0x27] @ ''Sunset'' @ [CHR 0x27]))) = Inr ''Sunset'' \<and>
   generateArtName (Some ''AAAA'') ''image/png'' Artistic
     (Response (Some ([CHR 0x22, CHR 0x22] @ ''Sunset'' @ [CHR 0x22, CHR 0x22])))
     = Inr ([CHR 0x22] @ ''Sunset'' @ [CHR 0x22]) \<and>
   generateArtName (Some ''AAAA'') ''image/png'' Artistic (Response (Some ''Sunset''))
     = Inr ''Sunset'' \<and>
   strip_quotes (strip_quotes ''Sunset'') = strip_quotes ''Sunset''"
  using
    generated_name_quotes_round_trip [where q = "CHR 0x22"
      and raw = "[CHR 0x20, CHR 0x22] @ ''Sunset'' @ [CHR 0x22, CHR 0x0A]"
      and body = "''Sunset''" and data = "Some ''AAAA''" and mime = "''image/png''"
      and st = Artistic and img = "hd (images two_completed)" and t = "''Sunset''"]
    generated_name_quotes_round_trip [where q = "CHR 0x27"
      and raw = "[CHR 0x27] @ ''Sunset'' @ [CHR 0x27]"
      and body = "''Sunset''" and data = "Some ''AAAA''" and mime = "''image/png''"
      and st = Artistic and img = "hd (images two_completed)" and t = "''Sunset''"]
    generated_name_quotes_round_trip [where q = "CHR 0x22"
      and raw = "[CHR 0x22, CHR 0x22] @ ''Sunset'' @ [CHR 0x22, CHR 0x22]"
      and body = "[CHR 0x22] @ ''Sunset'' @ [CHR 0x22]" and data = "Some ''AAAA''"
      and mime = "''image/png''" and st = Artistic and img = "hd (images two_completed)"
      and t = "''Sunset''"]
    generated_name_quotes_round_trip [where q = "CHR 0x22" and raw = "''Sunset''"
      and body = "[]" and data = "Some ''AAAA''" and mime = "''image/png''"
      and st = Artistic and img = "hd (images two_completed)" and t = "''Sunset''"]
  by (simp add: trim_def is_ws_def is_quote_def)



section \<open>Ingestion\<close>

lemma processFiles_Some:
  "processFiles (Some fs) mk_id s =
    (case promise_all (List.map_filter (\<lambda>p. p)
       (map (\<lambda>f. if \<not> prefix ''image/'' (file_type f) then None else Some (read_file f)) fs)) of
       Inr results \<Rightarrow> s\<lparr>error := [], images := images s @ map (\<lambda>(k, res). queued_image (mk_id k) res) (enumerate 0 results)\<rparr>
     | Inl message \<Rightarrow> s\<lparr>error := message\<rparr>)"
  by (simp add: processFiles_def Let_def split: sum.splits)

lemma promise_all_rejects: "Inl e \<in> set ps \<Longrightarrow> \<exists>e'. promise_all ps = Inl e' \<and> Inl e' \<in> set ps"
  by (induction ps rule: promise_all.induct) (auto split: sum.splits)

lemma processFiles_any_unreadable:
  assumes f: "f \<in> set fs" and t: "prefix ''image/'' (file_type f)" and r: "reading f = ReadError"
  shows "images (processFiles (Some fs) mk_id s) = images s \<and>
     (\<exists>g \<in> set fs. error (processFiles (Some fs) mk_id s) = ''Failed to read file: '' @ file_name g)"
proof -
  define ps where "ps = List.map_filter (\<lambda>p. p)
     (map (\<lambda>f. if \<not> prefix ''image/'' (file_type f) then None else Some (read_file f)) fs)"
  have mem: "\<And>x. x \<in> set ps \<longleftrightarrow> (\<exists>g \<in> set fs. prefix ''image/'' (file_type g) \<and> x = read_file g)"
    unfolding ps_def by (induction fs) (auto simp: List.map_filter_simps)
  from r have "read_file f = Inl (''Failed to read file: '' @ file_name f)"
    by (simp add: read_file_def)
  with f t have "Inl (''Failed to read file: '' @ file_name f) \<in> set ps"
    unfolding mem by force
  from promise_all_rejects [OF this] obtain e' where e: "promise_all ps = Inl e'" "Inl e' \<in> set ps"
    by blast
  from e(2) obtain g where g: "g \<in> set fs" "read_file g = Inl e'"
    unfolding mem by force
  then have "e' = ''Failed to read file: '' @ file_name g"
    by (auto simp: read_file_def split: read_outcome.splits)
  with g(1) e(1) show ?thesis
    unfolding processFiles_Some ps_def [symmetric] by auto
qed

text \<open>
  Claim C1. Two image files are chosen; the first is read, the second is not. The list
  stays empty: the image that was read is not added. The error text is the message of the
  failed read.
\<close>

theorem processFiles_one_unreadable_file:
  "processFiles
     (Some [\<lparr>file_type = ''image/png'', file_name = ''a.png'',
              reading = LoadEnd ''data:image/png;base64,AAAA''\<rparr>,
            \<lparr>file_type = ''image/png'', file_name = ''b.png'', reading = ReadError\<rparr>])
     mk_id initial
   = initial\<lparr>error := ''Failed to read file: b.png''\<rparr>"
  by (simp add: processFiles_def initial_def read_file_def List.map_filter_def)

text \<open>
  The name derived from a url is the text after its last slash, cut at the first question
  mark. It is the last path segment without the query string whenever no slash follows
  the first question mark.
\<close>

lemma split_on_nonempty: "split_on c s \<noteq> []"
  by (induction s) (auto split: list.splits)

lemma split_on_first: "part (split_on c s) 0 = Some (takeWhile (\<lambda>x. x \<noteq> c) s)"
proof (induction s)
  case Nil
  show ?case by (simp add: part_def)
next
  case (Cons x xs)
  obtain p ps where e: "split_on c xs = p # ps"
    using split_on_nonempty [of c xs] by (cases "split_on c xs") auto
  with Cons show ?case by (simp add: part_def)
qed

lemma lastIndexOf_snoc:
  "lastIndexOf c (xs @ [x]) = (if x = c then int (length xs) else lastIndexOf c xs)"
proof -
  have "filter (\<lambda>i. (xs @ [x]) ! i = c) (rev [0..<length xs]) = filter (\<lambda>i. xs ! i = c) (rev [0..<length xs])"
    by (rule filter_cong) (auto simp: nth_append)
  then show ?thesis by (simp add: lastIndexOf_def)
qed

lemma lastIndexOf_bounds: "- 1 \<le> lastIndexOf c s \<and> lastIndexOf c s < int (length s)"
proof (induction s rule: rev_induct)
  case Nil
  show ?case by (simp add: lastIndexOf_def)
next
  case (snoc x xs)
  then show ?case by (auto simp: lastIndexOf_snoc)
qed

lemma after_last: "substring s (lastIndexOf c s + 1) = rev (takeWhile (\<lambda>x. x \<noteq> c) (rev s))"
proof (induction s rule: rev_induct)
  case Nil
  show ?case by (simp add: substring_def)
next
  case (snoc x xs)
  show ?case
  proof (cases "x = c")
    case True
    then show ?thesis by (simp add: lastIndexOf_snoc substring_def nat_add_distrib)
  next
    case False
    from lastIndexOf_bounds [of c xs] have "nat (lastIndexOf c xs + 1) \<le> length xs" by auto
    with False snoc show ?thesis by (simp add: lastIndexOf_snoc substring_def)
  qed
qed

lemma fileName_of_url_alt:
  "fileName_of_url url =
     (let seg = takeWhile (\<lambda>c. c \<noteq> CHR ''?'') (rev (takeWhile (\<lambda>c. c \<noteq> CHR ''/'') (rev url)))
      in if seg = [] then ''image-from-url'' else seg)"
  by (simp add: fileName_of_url_def after_last split_on_first Let_def)

lemma fileName_of_url_agrees:
  assumes "CHR ''/'' \<notin> set (dropWhile (\<lambda>c. c \<noteq> CHR ''?'') url)"
  shows "fileName_of_url url = spec_display_name url"
proof -
  define p where "p = takeWhile (\<lambda>c. c \<noteq> CHR ''?'') url"
  define q where "q = dropWhile (\<lambda>c. c \<noteq> CHR ''?'') url"
  define t where "t = rev (takeWhile (\<lambda>c. c \<noteq> CHR ''/'') (rev p))"
  have u: "url = p @ q" by (simp add: p_def q_def)
  have q0: "q = [] \<or> hd q = CHR ''?''"
    unfolding q_def by (metis (mono_tags, lifting) hd_dropWhile)
  have nq: "\<forall>c \<in> set (rev q). c \<noteq> CHR ''/''"
    using assms by (auto simp: q_def)
  have np: "\<forall>c \<in> set p. c \<noteq> CHR ''?''"
    unfolding p_def by (auto dest: set_takeWhileD)
  have "set t \<subseteq> set p"
    unfolding t_def by (auto dest: set_takeWhileD)
  with np have nt: "\<forall>c \<in> set t. c \<noteq> CHR ''?''" by auto
  have "takeWhile (\<lambda>c. c \<noteq> CHR ''/'') (rev url) = rev q @ takeWhile (\<lambda>c. c \<noteq> CHR ''/'') (rev p)"
    unfolding u rev_append using nq by (intro takeWhile_append2) auto
  then have 1: "rev (takeWhile (\<lambda>c. c \<noteq> CHR ''/'') (rev url)) = t @ q"
    by (simp add: t_def)
  have "takeWhile (\<lambda>c. c \<noteq> CHR ''?'') q = []"
    using q0 by (cases q) auto
  moreover have "takeWhile (\<lambda>c. c \<noteq> CHR ''?'') (t @ q) = t @ takeWhile (\<lambda>c. c \<noteq> CHR ''?'') q"
    using nt by (intro takeWhile_append2) auto
  ultimately have 2: "takeWhile (\<lambda>c. c \<noteq> CHR ''?'') (t @ q) = t"
    by simp
  show ?thesis
    unfolding fileName_of_url_alt spec_display_name_def 1 2 p_def [symmetric]
    by (simp add: Let_def t_def)
qed

text \<open>
  Claim C7. For a url whose query string contains a slash, the name given to the item is
  the text after that slash, not the last segment of the path. Without a slash in the
  query string the name is the last segment of the path, and the placeholder when the path
  ends in a slash.
\<close>

theorem fileName_of_url_slash_in_query:
  "fileName_of_url ''https://example.com/art/cat.png?ref=a/b'' = ''b'' \<and>
   spec_display_name ''https://example.com/art/cat.png?ref=a/b'' = ''cat.png'' \<and>
   fileName_of_url ''https://example.com/art/cat.png?ref=ab'' = ''cat.png'' \<and>
   fileName_of_url ''https://example.com/art/'' = ''image-from-url'' \<and>
   fileName_of_url ''https://example.com/art/?ref=ab'' = ''image-from-url''"
  by code_simp

section \<open>Basic facts about the orchestrator\<close>

text \<open>
  How the pending slots and their ids change when an invocation is added, a promise is
  fulfilled or a cursor advances, and what applying a result does to one item.
\<close>

lemma lifecycle_step_lists: "lifecycle_step s s' = lifecycle_lists (images s) (images s')"
  by (simp add: lifecycle_step_def lifecycle_lists_def)

lemma known_ids_alt: "known_ids s = img_id ` set (images s) \<union> slot_ids (batches s)"
  by (simp add: known_ids_def slot_ids_def)

lemma pending_slot_ids: "pending bs b k \<Longrightarrow> slot_id bs b k \<in> slot_ids bs"
  unfolding pending_def slot_id_def slot_ids_def
  by (metis UN_I image_eqI nth_mem)

lemma distinct_ids_eq:
  "distinct (map img_id imgs) \<Longrightarrow> x \<in> set imgs \<Longrightarrow> y \<in> set imgs \<Longrightarrow> img_id x = img_id y \<Longrightarrow> x = y"
  by (meson distinct_map inj_on_def)

lemma start_generating_id [simp]: "img_id (start_generating img) = img_id img"
  by (simp add: start_generating_def)

lemma pending_snoc:
  "pending (bs @ [B]) b k = (pending bs b k \<or> (b = length bs \<and> cursor B \<le> k \<and> k < length (slots B)))"
  by (auto simp: pending_def nth_append)

lemma slot_id_snoc_old: "b < length bs \<Longrightarrow> slot_id (bs @ [B]) b k = slot_id bs b k"
  by (simp add: slot_id_def nth_append)

lemma slot_id_snoc_new: "slot_id (bs @ [B]) (length bs) k = img_id (fst (slots B ! k))"
  by (simp add: slot_id_def)

lemma pending_lt: "pending bs b k \<Longrightarrow> b < length bs"
  by (simp add: pending_def)

lemma generation_result_id [simp]: "result_id (generation_result img st out) = img_id img"
  by (simp add: generation_result_def split: sum.splits)

lemma pending_settled: "b < length bs \<Longrightarrow> pending (bs[b := settled (bs ! b) k out]) b' k' = pending bs b' k'"
  by (auto simp: pending_def settled_def nth_list_update)

lemma slot_id_settled: "b < length bs \<Longrightarrow> k < length (slots (bs ! b)) \<Longrightarrow> slot_id (bs[b := settled (bs ! b) k out]) b' k' = slot_id bs b' k'"
  by (cases "b' = b"; cases "k' = k") (auto simp: slot_id_def settled_def nth_list_update)

lemma pending_advance:
  "b < length bs \<Longrightarrow> c = cursor (bs ! b) \<Longrightarrow>
   pending (bs[b := (bs ! b)\<lparr>cursor := Suc c\<rparr>]) b' k' = (pending bs b' k' \<and> \<not> (b' = b \<and> k' = c))"
  by (auto simp: pending_def nth_list_update)

lemma slot_id_advance:
  "b < length bs \<Longrightarrow> slot_id (bs[b := (bs ! b)\<lparr>cursor := c\<rparr>]) b' k' = slot_id bs b' k'"
  by (auto simp: slot_id_def nth_list_update)

lemma merge_result_id: "img_id img = result_id r \<Longrightarrow> img_id (merge_result img r) = img_id img"
  by (cases r) auto

lemma apply_result_ids [simp]: "map img_id (apply_result r imgs) = map img_id imgs"
  by (simp add: apply_result_def merge_result_id)

lemma merge_result_status: "status (merge_result img r) = Completed \<or> status (merge_result img r) = Error"
  by (cases r) auto

lemma apply_result_mem:
  "img' \<in> set (apply_result r imgs) \<Longrightarrow>
     \<exists>img \<in> set imgs. img_id img' = img_id img \<and>
        (if img_id img = result_id r then img' = merge_result img r else img' = img)"
proof -
  assume "img' \<in> set (apply_result r imgs)"
  then have "img' \<in> (\<lambda>img. if img_id img = result_id r then merge_result img r else img) ` set imgs"
    unfolding apply_result_def by (simp only: set_map)
  then obtain img where i: "img \<in> set imgs"
    and e: "img' = (if img_id img = result_id r then merge_result img r else img)"
    by (rule imageE)
  show ?thesis
  proof (cases "img_id img = result_id r")
    case True
    with e have m: "img' = merge_result img r" by (simp only: if_P if_True)
    have n: "img_id img' = img_id img"
      unfolding m using True by (rule merge_result_id)
    from True m have "if img_id img = result_id r then img' = merge_result img r else img' = img"
      by (simp only: if_P if_True)
    with i n show ?thesis by blast
  next
    case False
    with e have m: "img' = img" by (simp only: if_not_P if_False)
    then have n: "img_id img' = img_id img" by (simp only:)
    from False m have "if img_id img = result_id r then img' = merge_result img r else img' = img"
      by (simp only: if_not_P if_False)
    with i n show ?thesis by blast
  qed
qed

lemma tagged_generate: "tagged bs \<Longrightarrow> tagged (bs @ [new_batch st imgs])"
  unfolding tagged_def
proof (intro allI impI)
  fix b k r
  assume t: "\<forall>b<length bs. \<forall>k<length (slots (bs ! b)). \<forall>r.
      snd (slots (bs ! b) ! k) = Fulfilled r \<longrightarrow> result_id r = slot_id bs b k"
    and b: "b < length (bs @ [new_batch st imgs])"
    and k: "k < length (slots ((bs @ [new_batch st imgs]) ! b))"
    and f: "snd (slots ((bs @ [new_batch st imgs]) ! b) ! k) = Fulfilled r"
  show "result_id r = slot_id (bs @ [new_batch st imgs]) b k"
  proof (cases "b < length bs")
    case True
    with t k f show ?thesis
      by (simp add: nth_append slot_id_snoc_old)
  next
    case False
    with b have "b = length bs" by simp
    with k f show ?thesis by (simp add: new_batch_def)
  qed
qed

lemma tagged_settle:
  assumes t: "tagged bs" and b: "b < length bs" and k: "k < length (slots (bs ! b))"
  shows "tagged (bs[b := settled (bs ! b) k out])"
  unfolding tagged_def
proof (intro allI impI)
  let ?bs = "bs[b := settled (bs ! b) k out]"
  fix b' k' r
  assume b': "b' < length ?bs" and k': "k' < length (slots (?bs ! b'))"
    and f: "snd (slots (?bs ! b') ! k') = Fulfilled r"
  show "result_id r = slot_id ?bs b' k'"
  proof (cases "b' = b \<and> k' = k")
    case True
    with b k f show ?thesis
      by (auto simp: settled_def slot_id_def)
  next
    case False
    with b' k' f b k have "k' < length (slots (bs ! b'))" "snd (slots (bs ! b') ! k') = Fulfilled r"
      by (auto simp: settled_def nth_list_update split: if_splits)
    with t b' have "result_id r = slot_id bs b' k'"
      unfolding tagged_def by simp
    with b k show ?thesis by (simp add: slot_id_settled)
  qed
qed

lemma tagged_advance:
  assumes t: "tagged bs" and b: "b < length bs"
  shows "tagged (bs[b := (bs ! b)\<lparr>cursor := c\<rparr>])"
  unfolding tagged_def
proof (intro allI impI)
  let ?bs = "bs[b := (bs ! b)\<lparr>cursor := c\<rparr>]"
  fix b' k' r'
  assume b': "b' < length ?bs" and k': "k' < length (slots (?bs ! b'))"
    and f': "snd (slots (?bs ! b') ! k') = Fulfilled r'"
  with b have "k' < length (slots (bs ! b'))" "snd (slots (bs ! b') ! k') = Fulfilled r'"
    by (auto simp: nth_list_update split: if_splits)
  with t b' have "result_id r' = slot_id bs b' k'"
    unfolding tagged_def by simp
  with b show "result_id r' = slot_id ?bs b' k'" by (simp add: slot_id_advance)
qed



text \<open>
  Claim C8. When no item of the list is queued, generate-all returns the state it was
  given: the list, the loading flag, the error text and the calls issued are the same,
  and so is everything else.
\<close>

theorem generate_all_without_queued_items:
  "\<forall>img \<in> set (images s). status img \<noteq> Queued \<Longrightarrow>
     step GenerateAll s = s \<and> images (step GenerateAll s) = images s \<and>
     isLoading (step GenerateAll s) = isLoading s \<and> error (step GenerateAll s) = error s \<and>
     calls (step GenerateAll s) = calls s"
proof -
  assume "\<forall>img \<in> set (images s). status img \<noteq> Queued"
  then have "filter (\<lambda>img. status img = Queued) (images s) = []"
    by (auto simp: filter_empty_conv)
  then have "handleGenerateAllNames s = s"
    by (simp add: handleGenerateAllNames_def)
  then show ?thesis by simp
qed

theorem generate_all_without_queued_items_witness:
  "filter (\<lambda>img. status img = Queued) (images two_completed) = [] \<and>
   step GenerateAll two_completed = two_completed \<and> step GenerateAll initial = initial"
proof -
  have f: "filter (\<lambda>img. status img = Queued) (images two_completed) = []"
    by (simp add: two_completed_def)
  have h: "\<forall>img \<in> set (images two_completed). status img \<noteq> Queued"
    by (simp add: two_completed_def)
  have h0: "\<forall>img \<in> set (images initial). status img \<noteq> Queued"
    by (simp add: initial_def)
  show ?thesis
    using f generate_all_without_queued_items [OF h] generate_all_without_queued_items [OF h0]
    by simp
qed

section \<open>The status of an item moves forward only\<close>

text \<open>
  The invariant \<open>consistent\<close> is kept by every event whose new ids are fresh, and every
  such step respects the life cycle. The list changes in four ways only: items are
  appended, items are filtered out, the queued items start generating, one result is
  applied.
\<close>

lemma lifecycle_same: "distinct (map img_id imgs) \<Longrightarrow> lifecycle_lists imgs imgs"
  unfolding lifecycle_lists_def by (auto dest: distinct_ids_eq)

lemma consistent_append:
  assumes c: "consistent imgs bs"
    and q: "\<forall>n \<in> set new. status n = Queued"
    and d: "distinct (map img_id new)"
    and f: "img_id ` set new \<inter> (img_id ` set imgs \<union> slot_ids bs) = {}"
  shows "consistent (imgs @ new) bs"
proof -
  have 1: "distinct (map img_id (imgs @ new))"
    using c d f by (auto simp: consistent_def)
  have 3: "\<forall>img \<in> set (imgs @ new). \<forall>b k. pending bs b k \<and> slot_id bs b k = img_id img
          \<longrightarrow> status img = Generating"
  proof (intro ballI allI impI)
    fix img b k
    assume i: "img \<in> set (imgs @ new)" and p: "pending bs b k \<and> slot_id bs b k = img_id img"
    then have "img_id img \<in> slot_ids bs"
      using pending_slot_ids by metis
    with f have "img \<notin> set new" by auto
    with i have "img \<in> set imgs" by simp
    with c p show "status img = Generating"
      unfolding consistent_def by blast
  qed
  from c 1 3 show ?thesis
    unfolding consistent_def by blast
qed

lemma lifecycle_append:
  assumes d: "distinct (map img_id imgs)"
    and q: "\<forall>n \<in> set new. status n = Queued"
    and f: "img_id ` set new \<inter> img_id ` set imgs = {}"
  shows "lifecycle_lists imgs (imgs @ new)"
  unfolding lifecycle_lists_def
proof (intro ballI conjI impI)
  fix img' img
  assume a: "img' \<in> set (imgs @ new)" "img \<in> set imgs" "img_id img = img_id img'"
  with f have "img' \<in> set imgs" by auto
  with d a have "img = img'" by (auto dest: distinct_ids_eq)
  then show "status img' = status img \<or> forward (status img) (status img')" by simp
next
  fix img'
  assume "img' \<in> set (imgs @ new)" "img_id img' \<notin> img_id ` set imgs"
  then have "img' \<in> set new" by auto
  with q show "status img' = Queued" by simp
qed

lemma consistent_filter: "consistent imgs bs \<Longrightarrow> consistent (filter P imgs) bs"
  unfolding consistent_def by (auto simp: distinct_map_filter)

lemma lifecycle_filter: "distinct (map img_id imgs) \<Longrightarrow> lifecycle_lists imgs (filter P imgs)"
  unfolding lifecycle_lists_def by (auto dest: distinct_ids_eq)

lemma consistent_generate:
  assumes c: "consistent imgs bs"
  shows "consistent (map start_generating imgs) (bs @ [new_batch st imgs])"
proof -
  define q where "q = filter (\<lambda>img. status img = Queued) imgs"
  define B where "B = new_batch st imgs"
  have sl: "slots B = map (\<lambda>img. (img, Pending)) q" and cu: "cursor B = 0"
    by (simp_all add: B_def new_batch_def q_def)
  have d: "distinct (map img_id imgs)"
    using c by (simp add: consistent_def)
  have dq: "distinct (map img_id q)"
    using d by (simp add: q_def distinct_map_filter)
  have qmem: "\<And>k. k < length q \<Longrightarrow> q ! k \<in> set imgs \<and> status (q ! k) = Queued"
  proof -
    fix k assume "k < length q"
    then have "q ! k \<in> set q" by simp
    then show "q ! k \<in> set imgs \<and> status (q ! k) = Queued" by (simp add: q_def)
  qed
  have newid: "\<And>k. k < length q \<Longrightarrow> slot_id (bs @ [B]) (length bs) k = img_id (q ! k)"
    by (simp add: slot_id_snoc_new sl)
  have J3: "\<And>img b k. img \<in> set imgs \<Longrightarrow> pending bs b k \<Longrightarrow> slot_id bs b k = img_id img
      \<Longrightarrow> status img = Generating"
    using c unfolding consistent_def by blast
  have pcase: "\<And>b k. pending (bs @ [B]) b k \<Longrightarrow>
       (pending bs b k \<and> slot_id (bs @ [B]) b k = slot_id bs b k) \<or>
       (b = length bs \<and> k < length q \<and> slot_id (bs @ [B]) b k = img_id (q ! k))"
    by (auto simp: pending_snoc sl slot_id_snoc_old slot_id_snoc_new dest: pending_lt)
  have old_new: "\<And>b k k'. pending bs b k \<Longrightarrow> k' < length q \<Longrightarrow> slot_id bs b k = img_id (q ! k') \<Longrightarrow> False"
  proof -
    fix b k k'
    assume p: "pending bs b k" and k': "k' < length q" and e: "slot_id bs b k = img_id (q ! k')"
    from qmem [OF k'] J3 [OF _ p e] have "status (q ! k') = Generating" by blast
    with qmem [OF k'] show False by simp
  qed
  have 1: "distinct (map img_id (map start_generating imgs))"
    using d by (simp add: comp_def)
  have 2: "\<forall>b k b' k'. pending (bs @ [B]) b k \<and> pending (bs @ [B]) b' k' \<and>
      slot_id (bs @ [B]) b k = slot_id (bs @ [B]) b' k' \<longrightarrow> b = b' \<and> k = k'"
  proof (intro allI impI)
    fix b k b' k'
    assume a: "pending (bs @ [B]) b k \<and> pending (bs @ [B]) b' k' \<and>
      slot_id (bs @ [B]) b k = slot_id (bs @ [B]) b' k'"
    from a pcase [of b k] pcase [of b' k'] consider
        (oo) "pending bs b k" "pending bs b' k'" "slot_id bs b k = slot_id bs b' k'"
      | (on) "pending bs b k" "k' < length q" "slot_id bs b k = img_id (q ! k')"
      | (no) "pending bs b' k'" "k < length q" "slot_id bs b' k' = img_id (q ! k)"
      | (nn) "b = length bs" "b' = length bs" "k < length q" "k' < length q" "img_id (q ! k) = img_id (q ! k')"
      by metis
    then show "b = b' \<and> k = k'"
    proof cases
      case oo
      with c show ?thesis unfolding consistent_def by blast
    next
      case on
      with old_new show ?thesis by blast
    next
      case no
      with old_new show ?thesis by blast
    next
      case nn
      then have "map img_id q ! k = map img_id q ! k'" by simp
      with dq nn show ?thesis
        by (metis length_map nth_eq_iff_index_eq)
    qed
  qed
  have 3: "\<forall>img \<in> set (map start_generating imgs). \<forall>b k. pending (bs @ [B]) b k \<and>
      slot_id (bs @ [B]) b k = img_id img \<longrightarrow> status img = Generating"
  proof (intro ballI allI impI)
    fix img' b k
    assume i: "img' \<in> set (map start_generating imgs)"
      and p: "pending (bs @ [B]) b k \<and> slot_id (bs @ [B]) b k = img_id img'"
    from i obtain img where img: "img \<in> set imgs" "img' = start_generating img" by auto
    from p pcase [of b k] consider
        (old) "pending bs b k" "slot_id bs b k = img_id img"
      | (new) "k < length q" "img_id (q ! k) = img_id img"
      using img by auto
    then show "status img' = Generating"
    proof cases
      case old
      with J3 img have "status img = Generating" by blast
      with img show ?thesis by (simp add: start_generating_def)
    next
      case new
      with qmem [of k] d img have "q ! k = img" by (auto dest: distinct_ids_eq)
      with qmem [of k] new have "status img = Queued" by simp
      with img show ?thesis by (simp add: start_generating_def)
    qed
  qed
  have 4: "tagged (bs @ [B])"
    using c unfolding B_def consistent_def by (simp add: tagged_generate)
  from 1 2 3 4 show ?thesis
    unfolding consistent_def B_def by blast
qed

lemma lifecycle_generate:
  assumes d: "distinct (map img_id imgs)"
  shows "lifecycle_lists imgs (map start_generating imgs)"
  unfolding lifecycle_lists_def
proof (intro ballI conjI impI)
  fix img' img
  assume a: "img' \<in> set (map start_generating imgs)" "img \<in> set imgs" "img_id img = img_id img'"
  then obtain img0 where i0: "img0 \<in> set imgs" "img' = start_generating img0" by auto
  with a d have "img = img0" by (auto dest: distinct_ids_eq)
  with i0 show "status img' = status img \<or> forward (status img) (status img')"
    by (simp add: start_generating_def)
next
  fix img'
  assume "img' \<in> set (map start_generating imgs)" "img_id img' \<notin> img_id ` set imgs"
  then show "status img' = Queued" by auto
qed

lemma consistent_settle:
  assumes c: "consistent imgs bs" and b: "b < length bs" and k: "k < length (slots (bs ! b))"
  shows "consistent imgs (bs[b := settled (bs ! b) k out])"
proof -
  have 4: "tagged (bs[b := settled (bs ! b) k out])"
    using c b k by (simp add: consistent_def tagged_settle)
  from c b k 4 show ?thesis
    unfolding consistent_def by (simp add: pending_settled slot_id_settled)
qed

lemma consistent_resume:
  assumes c: "consistent imgs bs" and b: "b < length bs"
    and k: "cursor (bs ! b) < length (slots (bs ! b))"
    and f: "snd (slots (bs ! b) ! cursor (bs ! b)) = Fulfilled r"
  shows "consistent (apply_result r imgs) (bs[b := (bs ! b)\<lparr>cursor := Suc (cursor (bs ! b))\<rparr>])"
    and "lifecycle_lists imgs (apply_result r imgs)"
proof -
  let ?c = "cursor (bs ! b)"
  let ?bs = "bs[b := (bs ! b)\<lparr>cursor := Suc ?c\<rparr>]"
  have pc: "pending bs b ?c"
    using b k by (simp add: pending_def)
  have rid: "result_id r = slot_id bs b ?c"
    using c b k f unfolding consistent_def tagged_def by blast
  have d: "distinct (map img_id imgs)"
    using c by (simp add: consistent_def)
  have J2: "\<And>b1 k1 b2 k2. pending bs b1 k1 \<Longrightarrow> pending bs b2 k2 \<Longrightarrow> slot_id bs b1 k1 = slot_id bs b2 k2 \<Longrightarrow> b1 = b2 \<and> k1 = k2"
    using c unfolding consistent_def by blast
  have J3: "\<And>img b k. img \<in> set imgs \<Longrightarrow> pending bs b k \<Longrightarrow> slot_id bs b k = img_id img
      \<Longrightarrow> status img = Generating"
    using c unfolding consistent_def by blast
  have 1: "distinct (map img_id (apply_result r imgs))"
    using d by simp
  have 2: "\<forall>b1 k1 b2 k2. pending ?bs b1 k1 \<and> pending ?bs b2 k2 \<and> slot_id ?bs b1 k1 = slot_id ?bs b2 k2
      \<longrightarrow> b1 = b2 \<and> k1 = k2"
    using b J2 by (simp add: pending_advance slot_id_advance) blast
  have 3: "\<forall>img \<in> set (apply_result r imgs). \<forall>b' k'. pending ?bs b' k' \<and> slot_id ?bs b' k' = img_id img
      \<longrightarrow> status img = Generating"
  proof (intro ballI allI impI)
    fix img' b' k'
    assume i: "img' \<in> set (apply_result r imgs)"
      and p: "pending ?bs b' k' \<and> slot_id ?bs b' k' = img_id img'"
    from apply_result_mem [OF i] obtain img where img: "img \<in> set imgs" "img_id img' = img_id img"
      "if img_id img = result_id r then img' = merge_result img r else img' = img" by blast
    from p b have p': "pending bs b' k'" "\<not> (b' = b \<and> k' = ?c)" "slot_id bs b' k' = img_id img"
      using img by (simp_all add: pending_advance slot_id_advance)
    have "img_id img \<noteq> result_id r"
    proof
      assume "img_id img = result_id r"
      with rid p' have "slot_id bs b' k' = slot_id bs b ?c" by simp
      with J2 [OF p'(1) pc] p'(2) show False by blast
    qed
    with img have "img' = img" by simp
    with J3 [OF img(1) p'(1) p'(3)] show "status img' = Generating" by simp
  qed
  have 4: "tagged ?bs"
    using c b by (simp add: consistent_def tagged_advance)
  from 1 2 3 4 show "consistent (apply_result r imgs) ?bs"
    unfolding consistent_def by blast
  show "lifecycle_lists imgs (apply_result r imgs)"
    unfolding lifecycle_lists_def
  proof (intro ballI conjI impI)
    fix img' img0
    assume a: "img' \<in> set (apply_result r imgs)" "img0 \<in> set imgs" "img_id img0 = img_id img'"
    from apply_result_mem [OF a(1)] obtain img where img: "img \<in> set imgs" "img_id img' = img_id img"
      "if img_id img = result_id r then img' = merge_result img r else img' = img" by blast
    from a(3) img(2) have "img_id img0 = img_id img" by simp
    then have e: "img0 = img" by (rule distinct_ids_eq [OF d a(2) img(1)])
    show "status img' = status img0 \<or> forward (status img0) (status img')"
    proof (cases "img_id img = result_id r")
      case True
      with J3 [OF img(1) pc] rid have g: "status img0 = Generating"
        unfolding e by simp
      from True img(3) have "img' = merge_result img r" by simp
      then have "status img' = Completed \<or> status img' = Error"
        using merge_result_status [of img r] by simp
      then have "forward Generating (status img')" by auto
      then show ?thesis unfolding g by simp
    next
      case False
      with img(3) have "img' = img0" unfolding e by simp
      then show ?thesis by simp
    qed
  next
    fix img'
    assume "img' \<in> set (apply_result r imgs)" "img_id img' \<notin> img_id ` set imgs"
    then show "status img' = Queued"
      by (auto dest!: apply_result_mem)
  qed
qed

lemma map_filter_length: "length (List.map_filter f xs) \<le> length xs"
  by (simp add: List.map_filter_def)

lemma accepted_length: "length (List.map_filter (\<lambda>p. p)
     (map (\<lambda>f. if \<not> prefix ''image/'' (file_type f) then None else Some (read_file f)) fs)) \<le> length fs"
  using map_filter_length [of "\<lambda>p. p" "map (\<lambda>f. if \<not> prefix ''image/'' (file_type f) then None else Some (read_file f)) fs"] by (simp only: length_map)

lemma queued_image_status [simp]: "status (queued_image i res) = Queued"
  by (cases res) (simp add: queued_image_def)

lemma queued_image_id [simp]: "img_id (queued_image i res) = i"
  by (cases res) (simp add: queued_image_def)

lemma enumerate_ids:
  "map img_id (map (\<lambda>(k, res). queued_image (mk_id k) res) (enumerate 0 rs)) = map mk_id [0..<length rs]"
proof -
  have "map img_id (map (\<lambda>(k, res). queued_image (mk_id k) res) (enumerate 0 rs))
      = map (\<lambda>x. mk_id (fst x)) (enumerate 0 rs)"
    by (simp add: case_prod_beta)
  also have "\<dots> = map mk_id (map fst (enumerate 0 rs))"
    by (simp only: map_map comp_def)
  also have "\<dots> = map mk_id [0..<length rs]"
    by (simp only: map_fst_enumerate add_0)
  finally show ?thesis .
qed

lemma promise_all_length: "promise_all ps = Inr rs \<Longrightarrow> length rs = length ps"
  by (induction ps arbitrary: rs rule: promise_all.induct) (auto split: sum.splits)

lemma distinct_prefix_upt:
  "distinct (map f [0..<n]) \<Longrightarrow> m \<le> n \<Longrightarrow> distinct (map f [0..<m]) \<and> set (map f [0..<m]) \<subseteq> set (map f [0..<n])"
  by (auto simp: distinct_map inj_on_def)

lemma processFiles_batches [simp]: "batches (processFiles files mk_id s) = batches s"
  by (simp add: processFiles_def Let_def split: option.splits sum.splits)

lemma processFiles_images_Some:
  assumes "distinct (map mk_id [0..<length fs])"
  shows "\<exists>new. images (processFiles (Some fs) mk_id s) = images s @ new \<and>
     (\<forall>n \<in> set new. status n = Queued) \<and> distinct (map img_id new) \<and>
     set (map img_id new) \<subseteq> set (map mk_id [0..<length fs])"
proof -
  define ps where "ps = List.map_filter (\<lambda>p. p)
     (map (\<lambda>f. if \<not> prefix ''image/'' (file_type f) then None else Some (read_file f)) fs)"
  have lps: "length ps \<le> length fs"
    unfolding ps_def by (rule accepted_length)
  have unf: "processFiles (Some fs) mk_id s =
    (case promise_all ps of
       Inr results \<Rightarrow> s\<lparr>error := [], images := images s @ map (\<lambda>(k, res). queued_image (mk_id k) res) (enumerate 0 results)\<rparr>
     | Inl message \<Rightarrow> s\<lparr>error := message\<rparr>)"
    unfolding ps_def by (rule processFiles_Some)
  show ?thesis
  proof (cases "promise_all ps")
    case (Inl message)
    have "images (processFiles (Some fs) mk_id s) = images s @ []"
      unfolding unf Inl by simp
    then show ?thesis by (intro exI [of _ "[]"]) simp
  next
    case (Inr rs)
    define new where "new = map (\<lambda>(k, res). queued_image (mk_id k) res) (enumerate 0 rs)"
    have i: "images (processFiles (Some fs) mk_id s) = images s @ new"
      unfolding unf Inr new_def by simp
    have q: "\<forall>n \<in> set new. status n = Queued"
      unfolding new_def by (simp add: case_prod_beta)
    have ids: "map img_id new = map mk_id [0..<length rs]"
      unfolding new_def by (rule enumerate_ids)
    from promise_all_length [OF Inr] lps have "length rs \<le> length fs" by simp
    from distinct_prefix_upt [OF assms this]
    have "distinct (map img_id new) \<and> set (map img_id new) \<subseteq> set (map mk_id [0..<length fs])"
      unfolding ids .
    with i q show ?thesis by (intro exI [of _ new]) (simp only: simp_thms)
  qed
qed

lemma processFiles_images:
  assumes "distinct (map mk_id [0..<(case files of None \<Rightarrow> 0 | Some fs \<Rightarrow> length fs)])"
  shows "\<exists>new. images (processFiles files mk_id s) = images s @ new \<and>
     (\<forall>n \<in> set new. status n = Queued) \<and> distinct (map img_id new) \<and>
     set (map img_id new) \<subseteq> set (map mk_id [0..<(case files of None \<Rightarrow> 0 | Some fs \<Rightarrow> length fs)])"
proof (cases files)
  case None
  have "images (processFiles files mk_id s) = images s @ []"
    unfolding None by (simp add: processFiles_def)
  then show ?thesis by (intro exI [of _ "[]"]) simp
next
  case (Some fs)
  from assms have "distinct (map mk_id [0..<length fs])"
    unfolding Some by simp
  from processFiles_images_Some [OF this, of s] show ?thesis
    unfolding Some by simp
qed

lemma fetch_url_cases:
  "case fetch_url url i out of Inl u \<Rightarrow> True | Inr img \<Rightarrow> img_id img = i \<and> status img = Queued"
  by (simp add: fetch_url_def split: fetch_outcome.splits read_outcome.splits option.splits)

lemma fetch_url_Inr: "fetch_url url i out = Inr img \<Longrightarrow> img_id img = i \<and> status img = Queued"
proof -
  assume a: "fetch_url url i out = Inr img"
  show ?thesis
    using fetch_url_cases [where url = url and i = i and out = out] unfolding a by simp
qed

lemma fetch_successes:
  "(\<forall>n \<in> set (List.map_filter (case_sum (\<lambda>x. None) Some)
              (map (\<lambda>(k, url). fetch_url url (mk_id k) (outcome k)) kus)).
       status n = Queued) \<and>
   map img_id (List.map_filter (case_sum (\<lambda>x. None) Some)
       (map (\<lambda>(k, url). fetch_url url (mk_id k) (outcome k)) kus))
     = map (\<lambda>x. mk_id (fst x))
         (filter (\<lambda>(k, url). \<exists>img. fetch_url url (mk_id k) (outcome k) = Inr img) kus)"
proof (induction kus)
  case Nil
  show ?case by (simp add: List.map_filter_simps)
next
  case (Cons a kus)
  obtain k url where a: "a = (k, url)" by (cases a)
  show ?case
  proof (cases "fetch_url url (mk_id k) (outcome k)")
    case (Inl u)
    with Cons a show ?thesis by (simp add: List.map_filter_simps)
  next
    case (Inr img)
    with fetch_url_Inr [OF Inr] Cons a show ?thesis
      by (simp add: List.map_filter_simps)
  qed
qed

lemma handleFetchFromUrls_batches [simp]: "batches (handleFetchFromUrls outcome mk_id s) = batches s"
  by (simp add: handleFetchFromUrls_def Let_def)

lemma handleFetchFromUrls_images:
  assumes "distinct (map mk_id [0..<length (urls_of (urlInput s))])"
  shows "\<exists>new. images (handleFetchFromUrls outcome mk_id s) = images s @ new \<and>
     (\<forall>n \<in> set new. status n = Queued) \<and> distinct (map img_id new) \<and>
     set (map img_id new) \<subseteq> set (map mk_id [0..<length (urls_of (urlInput s))])"
proof -
  define urls where "urls = urls_of (urlInput s)"
  define new where "new = List.map_filter (case_sum (\<lambda>x. None) Some)
     (map (\<lambda>(k, url). fetch_url url (mk_id k) (outcome k)) (enumerate 0 urls))"
  have i: "images (handleFetchFromUrls outcome mk_id s) = images s @ (if urls = [] then [] else new)"
    by (simp add: handleFetchFromUrls_def Let_def urls_def new_def)
  have q: "\<forall>n \<in> set new. status n = Queued"
    unfolding new_def using fetch_successes by blast
  have ids: "map img_id new = map (\<lambda>x. mk_id (fst x))
         (filter (\<lambda>(k, url). \<exists>img. fetch_url url (mk_id k) (outcome k) = Inr img) (enumerate 0 urls))"
    unfolding new_def using fetch_successes by blast
  have "map (\<lambda>x. mk_id (fst x)) (enumerate 0 urls) = map mk_id (map fst (enumerate 0 urls))"
    by (simp only: map_map comp_def)
  then have all: "map (\<lambda>x. mk_id (fst x)) (enumerate 0 urls) = map mk_id [0..<length urls]"
    by (simp only: map_fst_enumerate add_0)
  from assms have "distinct (map mk_id [0..<length urls])"
    unfolding urls_def .
  then have "distinct (map (\<lambda>x. mk_id (fst x)) (enumerate 0 urls))"
    unfolding all .
  then have d: "distinct (map img_id new)"
    unfolding ids by (rule distinct_map_filter)
  have "set (map img_id new) \<subseteq> set (map (\<lambda>x. mk_id (fst x)) (enumerate 0 urls))"
    unfolding ids by auto
  then have "set (map img_id new) \<subseteq> set (map mk_id [0..<length urls])"
    unfolding all .
  then have sub: "set (map img_id new) \<subseteq> set (map mk_id [0..<length (urls_of (urlInput s))])"
    unfolding urls_def .
  show ?thesis
  proof (cases "urls = []")
    case True
    with i show ?thesis by (intro exI [of _ "[]"]) simp
  next
    case False
    with i q d sub show ?thesis by (intro exI [of _ new]) simp
  qed
qed

lemma enqueue_step:
  assumes c: "consistent (images s) (batches s)"
    and f: "fresh_supply mk_id n s"
    and i: "images s' = images s @ new"
    and b: "batches s' = batches s"
    and q: "\<forall>x \<in> set new. status x = Queued"
    and d: "distinct (map img_id new)"
    and sub: "set (map img_id new) \<subseteq> set (map mk_id [0..<n])"
  shows "consistent (images s') (batches s') \<and> lifecycle_step s s'"
proof -
  from f sub have dis: "img_id ` set new \<inter> (img_id ` set (images s) \<union> slot_ids (batches s)) = {}"
    unfolding fresh_supply_def known_ids_alt by auto
  then have dis': "img_id ` set new \<inter> img_id ` set (images s) = {}" by auto
  from c have dd: "distinct (map img_id (images s))" by (simp add: consistent_def)
  from consistent_append [OF c q d dis] lifecycle_append [OF dd q dis'] i b
  show ?thesis by (simp add: lifecycle_step_lists)
qed

lemma frame_step:
  assumes c: "consistent (images s) (batches s)"
    and i: "images s' = images s" and b: "batches s' = batches s"
  shows "consistent (images s') (batches s') \<and> lifecycle_step s s'"
  using c i b lifecycle_same [of "images s"]
  by (simp add: lifecycle_step_lists consistent_def)

lemma handleCopyAll_frame: "images (handleCopyAll s) = images s \<and> batches (handleCopyAll s) = batches s"
  by (simp add: handleCopyAll_def Let_def)

lemma timeout_frame: "images (timeout k s) = images s \<and> batches (timeout k s) = batches s"
proof (cases "k < length (timers s)")
  case True
  then show ?thesis by (cases "snd (timers s ! k)") (simp_all add: timeout_def)
next
  case False
  then show ?thesis by (simp add: timeout_def)
qed

lemma generate_parts:
  "images (handleGenerateAllNames s) = images s \<and> batches (handleGenerateAllNames s) = batches s \<or>
   images (handleGenerateAllNames s) = map start_generating (images s) \<and>
   batches (handleGenerateAllNames s) = batches s @ [new_batch (nameStyle s) (images s)]"
  by (simp add: handleGenerateAllNames_def Let_def new_batch_def start_generating_def [abs_def])

lemma settle_parts:
  "images (settle b k out s) = images s \<and>
   (batches (settle b k out s) = batches s \<or>
    b < length (batches s) \<and> k < length (slots (batches s ! b)) \<and>
    batches (settle b k out s) = (batches s)[b := settled (batches s ! b) k out])"
  by (simp add: settle_def Let_def settled_def)

lemma resume_parts:
  "images (resume b s) = images s \<and> batches (resume b s) = batches s \<or>
   (\<exists>r. b < length (batches s) \<and> cursor (batches s ! b) < length (slots (batches s ! b)) \<and>
     snd (slots (batches s ! b) ! cursor (batches s ! b)) = Fulfilled r \<and>
     images (resume b s) = apply_result r (images s) \<and>
     batches (resume b s) = (batches s)[b := (batches s ! b)\<lparr>cursor := Suc (cursor (batches s ! b))\<rparr>])"
  by (simp add: resume_def Let_def split: promise.splits)

lemma step_consistent:
  assumes c: "consistent (images s) (batches s)" and f: "fresh e s"
  shows "consistent (images (step e s)) (batches (step e s)) \<and> lifecycle_step s (step e s)"
proof (cases e)
  case (ProcessFiles files mk_id)
  let ?n = "case files of None \<Rightarrow> 0 | Some fs \<Rightarrow> length fs"
  from f ProcessFiles have fs: "fresh_supply mk_id ?n s" by simp
  then have "distinct (map mk_id [0..<?n])" by (simp add: fresh_supply_def)
  from processFiles_images [OF this, of s] obtain new where
    "images (processFiles files mk_id s) = images s @ new" "\<forall>n \<in> set new. status n = Queued"
    "distinct (map img_id new)" "set (map img_id new) \<subseteq> set (map mk_id [0..<?n])" by blast
  with enqueue_step [OF c fs, of "processFiles files mk_id s" new] ProcessFiles
  show ?thesis by simp
next
  case (FetchFromUrls outcome mk_id)
  let ?n = "length (urls_of (urlInput s))"
  from f FetchFromUrls have fs: "fresh_supply mk_id ?n s" by simp
  then have "distinct (map mk_id [0..<?n])" by (simp add: fresh_supply_def)
  from handleFetchFromUrls_images [OF this, of outcome] obtain new where
    "images (handleFetchFromUrls outcome mk_id s) = images s @ new" "\<forall>n \<in> set new. status n = Queued"
    "distinct (map img_id new)" "set (map img_id new) \<subseteq> set (map mk_id [0..<?n])" by blast
  with enqueue_step [OF c fs, of "handleFetchFromUrls outcome mk_id s" new] FetchFromUrls
  show ?thesis by simp
next
  case (SetUrlInput t)
  with frame_step [OF c, of "step e s"] show ?thesis by simp
next
  case (SetNameStyle style)
  with frame_step [OF c, of "step e s"] show ?thesis by simp
next
  case GenerateAll
  from c have d: "distinct (map img_id (images s))" by (simp add: consistent_def)
  from generate_parts [of s] show ?thesis
  proof
    assume "images (handleGenerateAllNames s) = images s \<and> batches (handleGenerateAllNames s) = batches s"
    with frame_step [OF c, of "step e s"] GenerateAll show ?thesis by simp
  next
    assume "images (handleGenerateAllNames s) = map start_generating (images s) \<and>
      batches (handleGenerateAllNames s) = batches s @ [new_batch (nameStyle s) (images s)]"
    with consistent_generate [OF c] lifecycle_generate [OF d] GenerateAll
    show ?thesis by (simp add: lifecycle_step_lists)
  qed
next
  case (Settle b k out)
  from c have d: "distinct (map img_id (images s))" by (simp add: consistent_def)
  from settle_parts [of b k out s] have i: "images (settle b k out s) = images s" by simp
  from settle_parts [of b k out s] consistent_settle [OF c, of b k out]
  have "consistent (images s) (batches (settle b k out s))"
    using c by auto
  with i lifecycle_same [OF d] Settle show ?thesis by (simp add: lifecycle_step_lists)
next
  case (Resume b)
  from c have d: "distinct (map img_id (images s))" by (simp add: consistent_def)
  from resume_parts [of b s] show ?thesis
  proof (elim disjE exE)
    assume "images (resume b s) = images s \<and> batches (resume b s) = batches s"
    with frame_step [OF c, of "step e s"] Resume show ?thesis by simp
  next
    fix r
    assume a: "b < length (batches s) \<and> cursor (batches s ! b) < length (slots (batches s ! b)) \<and>
     snd (slots (batches s ! b) ! cursor (batches s ! b)) = Fulfilled r \<and>
     images (resume b s) = apply_result r (images s) \<and>
     batches (resume b s) = (batches s)[b := (batches s ! b)\<lparr>cursor := Suc (cursor (batches s ! b))\<rparr>]"
    then have 1: "b < length (batches s)" and 2: "cursor (batches s ! b) < length (slots (batches s ! b))"
      and 3: "snd (slots (batches s ! b) ! cursor (batches s ! b)) = Fulfilled r" by simp_all
    from consistent_resume [OF c 1 2 3] a Resume show ?thesis
      by (simp add: lifecycle_step_lists)
  qed
next
  case (RemoveImage i)
  from c have d: "distinct (map img_id (images s))" by (simp add: consistent_def)
  from consistent_filter [OF c] lifecycle_filter [OF d] RemoveImage show ?thesis
    by (simp add: removeImage_def lifecycle_step_lists)
next
  case ClearAll
  from c have d: "distinct (map img_id (images s))" by (simp add: consistent_def)
  from consistent_filter [OF c, of "\<lambda>_. False"] lifecycle_filter [OF d, of "\<lambda>_. False"] ClearAll
  show ?thesis by (simp add: clearAll_def lifecycle_step_lists)
next
  case (CopyToClipboard i t)
  with frame_step [OF c, of "step e s"] show ?thesis by (simp add: handleCopyToClipboard_def)
next
  case CopyAll
  with frame_step [OF c, of "step e s"] handleCopyAll_frame [of s] show ?thesis by simp
next
  case (Timeout k)
  with frame_step [OF c, of "step e s"] timeout_frame [of k s] show ?thesis by simp
next
  case DismissError
  with frame_step [OF c, of "step e s"] show ?thesis by simp
qed

lemma run_lifecycle:
  "consistent (images s) (batches s) \<Longrightarrow> fresh_run es s \<Longrightarrow> lifecycle_run es s"
proof (induction es arbitrary: s)
  case Nil
  show ?case by simp
next
  case (Cons e es)
  from Cons.prems have f: "fresh e s" and fr: "fresh_run es (step e s)" by simp_all
  from step_consistent [OF Cons.prems(1) f] Cons.IH [OF _ fr] show ?case by simp
qed

lemma consistent_initial: "consistent (images initial) (batches initial)"
  by (simp add: initial_def consistent_def pending_def tagged_def)

text \<open>
  Claim C4. Start from the empty application and let any events happen in any order,
  the ids generated for new items being fresh. Then at every step every item that stays
  in the list keeps its status or moves from queued to generating, from generating to
  completed, or from generating to error, and every item that enters the list is queued.
\<close>

theorem status_moves_forward_only:
  "fresh_run es initial \<Longrightarrow> lifecycle_run es initial"
  using consistent_initial by (rule run_lifecycle)

theorem status_moves_forward_only_witness:
  "fresh_run example_session initial \<and> lifecycle_run example_session initial"
proof -
  have h: "fresh_run example_session initial"
    by code_simp
  from status_moves_forward_only [OF h] h show ?thesis by simp
qed

section \<open>Results are applied in the order of the snapshot\<close>

text \<open>
  The invariant \<open>log_inv\<close> holds initially and is kept by every event, with no
  assumption on the ids or on the order of the events.
\<close>

lemma log_inv_frame:
  "log_inv s \<Longrightarrow> batches s' = batches s \<Longrightarrow> updates s' = updates s \<Longrightarrow> log_inv s'"
  by (simp add: log_inv_def batch_log_def)

lemma log_inv_initial: "log_inv initial"
  by (simp add: log_inv_def initial_def tagged_def)

lemma log_inv_generate:
  assumes l: "log_inv s"
    and bs: "batches s' = batches s @ [new_batch (nameStyle s) (images s)]" and us: "updates s' = updates s"
  shows "log_inv s'"
proof -
  let ?B = "new_batch (nameStyle s) (images s)"
  have 1: "tagged (batches s')"
    using l bs by (simp add: log_inv_def tagged_generate)
  have nolog: "batch_log (length (batches s)) s' = []"
    using l us by (auto simp: batch_log_def log_inv_def filter_empty_conv)
  have 2: "\<forall>b < length (batches s'). cursor (batches s' ! b) \<le> length (slots (batches s' ! b)) \<and>
          batch_log b s' = [0..<cursor (batches s' ! b)]"
  proof (intro allI impI)
    fix b assume b: "b < length (batches s')"
    show "cursor (batches s' ! b) \<le> length (slots (batches s' ! b)) \<and>
          batch_log b s' = [0..<cursor (batches s' ! b)]"
    proof (cases "b < length (batches s)")
      case True
      with l have "cursor (batches s ! b) \<le> length (slots (batches s ! b)) \<and>
          batch_log b s = [0..<cursor (batches s ! b)]" by (simp add: log_inv_def)
      with True bs us show ?thesis by (simp add: nth_append batch_log_def)
    next
      case False
      with b bs have e: "b = length (batches s)" by simp
      with nolog bs show ?thesis by (simp add: new_batch_def)
    qed
  qed
  have 3: "\<forall>u \<in> set (updates s'). fst u < length (batches s') \<and>
          fst (snd u) < cursor (batches s' ! fst u) \<and>
          result_id (snd (snd u)) = slot_id (batches s') (fst u) (fst (snd u))"
  proof
    fix u assume "u \<in> set (updates s')"
    with us l have o: "fst u < length (batches s)" "fst (snd u) < cursor (batches s ! fst u)"
      "result_id (snd (snd u)) = slot_id (batches s) (fst u) (fst (snd u))"
      by (simp_all add: log_inv_def)
    then show "fst u < length (batches s') \<and>
          fst (snd u) < cursor (batches s' ! fst u) \<and>
          result_id (snd (snd u)) = slot_id (batches s') (fst u) (fst (snd u))"
      using bs by (simp add: nth_append slot_id_snoc_old)
  qed
  have 4: "\<forall>q < length (updates s'). \<forall>p < q. fst (updates s' ! p) = fst (updates s' ! q) \<longrightarrow>
          fst (snd (updates s' ! p)) < fst (snd (updates s' ! q))"
    using l us by (simp add: log_inv_def)
  from 1 2 3 4 show ?thesis by (simp only: log_inv_def simp_thms)
qed

lemma log_inv_settle:
  assumes l: "log_inv s" and b: "b < length (batches s)" and k: "k < length (slots (batches s ! b))"
    and bs: "batches s' = (batches s)[b := settled (batches s ! b) k out]" and us: "updates s' = updates s"
  shows "log_inv s'"
proof -
  have cur: "\<And>b'. b' < length (batches s) \<Longrightarrow> cursor (batches s' ! b') = cursor (batches s ! b')"
    using b bs by (simp add: nth_list_update settled_def)
  have len: "\<And>b'. b' < length (batches s) \<Longrightarrow> length (slots (batches s' ! b')) = length (slots (batches s ! b'))"
    using b bs by (simp add: nth_list_update settled_def)
  have 1: "tagged (batches s')"
    using l b k bs by (simp add: log_inv_def tagged_settle)
  from l b k bs us cur len 1 show ?thesis
    by (simp add: log_inv_def batch_log_def slot_id_settled)
qed

lemma batch_log_snoc:
  "updates s' = updates s @ [(b, c, r)] \<Longrightarrow>
   batch_log b' s' = batch_log b' s @ (if b' = b then [c] else [])"
  by (simp add: batch_log_def)

lemma log_inv_resume:
  assumes l: "log_inv s" and b: "b < length (batches s)"
    and k: "cursor (batches s ! b) < length (slots (batches s ! b))"
    and f: "snd (slots (batches s ! b) ! cursor (batches s ! b)) = Fulfilled r"
    and bs: "batches s' = (batches s)[b := (batches s ! b)\<lparr>cursor := Suc (cursor (batches s ! b))\<rparr>]"
    and us: "updates s' = updates s @ [(b, cursor (batches s ! b), r)]"
  shows "log_inv s'"
proof -
  let ?c = "cursor (batches s ! b)"
  have t: "tagged (batches s)" using l by (simp add: log_inv_def)
  have rid: "result_id r = slot_id (batches s) b ?c"
    using t b k f unfolding tagged_def by blast
  have cur: "\<And>b'. b' < length (batches s) \<Longrightarrow>
      cursor (batches s' ! b') = (if b' = b then Suc ?c else cursor (batches s ! b'))"
    using b bs by (simp add: nth_list_update)
  have len: "\<And>b'. b' < length (batches s) \<Longrightarrow> length (slots (batches s' ! b')) = length (slots (batches s ! b'))"
    using b bs by (simp add: nth_list_update)
  have sid: "\<And>b' k'. slot_id (batches s') b' k' = slot_id (batches s) b' k'"
    using b bs by (simp add: slot_id_advance)
  have lb: "length (batches s') = length (batches s)"
    using bs by simp
  have old: "\<And>u. u \<in> set (updates s) \<Longrightarrow> fst u < length (batches s) \<and>
          fst (snd u) < cursor (batches s ! fst u) \<and>
          result_id (snd (snd u)) = slot_id (batches s) (fst u) (fst (snd u))"
    using l by (simp add: log_inv_def)
  have 1: "tagged (batches s')"
    using t b bs by (simp add: tagged_advance)
  have 2: "\<forall>b' < length (batches s'). cursor (batches s' ! b') \<le> length (slots (batches s' ! b')) \<and>
          batch_log b' s' = [0..<cursor (batches s' ! b')]"
  proof (intro allI impI)
    fix b' assume b': "b' < length (batches s')"
    with lb have b'': "b' < length (batches s)" by simp
    with l have o: "cursor (batches s ! b') \<le> length (slots (batches s ! b'))"
      "batch_log b' s = [0..<cursor (batches s ! b')]" by (simp_all add: log_inv_def)
    show "cursor (batches s' ! b') \<le> length (slots (batches s' ! b')) \<and>
          batch_log b' s' = [0..<cursor (batches s' ! b')]"
      using o k by (simp add: cur [OF b''] len [OF b''] batch_log_snoc [OF us])
  qed
  have 3: "\<forall>u \<in> set (updates s'). fst u < length (batches s') \<and>
          fst (snd u) < cursor (batches s' ! fst u) \<and>
          result_id (snd (snd u)) = slot_id (batches s') (fst u) (fst (snd u))"
  proof
    fix u assume "u \<in> set (updates s')"
    with us have "u \<in> set (updates s) \<or> u = (b, ?c, r)" by auto
    then show "fst u < length (batches s') \<and>
          fst (snd u) < cursor (batches s' ! fst u) \<and>
          result_id (snd (snd u)) = slot_id (batches s') (fst u) (fst (snd u))"
    proof
      assume u: "u \<in> set (updates s)"
      from old [OF u] have "fst u < length (batches s)" by simp
      from old [OF u] cur [OF this] show ?thesis by (auto simp: lb sid)
    next
      assume "u = (b, ?c, r)"
      with b rid cur [OF b] show ?thesis by (simp add: lb sid)
    qed
  qed
  have 4: "\<forall>q < length (updates s'). \<forall>p < q. fst (updates s' ! p) = fst (updates s' ! q) \<longrightarrow>
          fst (snd (updates s' ! p)) < fst (snd (updates s' ! q))"
  proof (intro allI impI)
    fix q p
    assume q: "q < length (updates s')" and p: "p < q"
      and e: "fst (updates s' ! p) = fst (updates s' ! q)"
    show "fst (snd (updates s' ! p)) < fst (snd (updates s' ! q))"
    proof (cases "q < length (updates s)")
      case True
      with l p e us show ?thesis by (simp add: log_inv_def nth_append)
    next
      case False
      with q us have qe: "q = length (updates s)" by simp
      with p have pl: "p < length (updates s)" by simp
      then have "updates s ! p \<in> set (updates s)" by simp
      from old [OF this] have "fst (snd (updates s ! p)) < cursor (batches s ! fst (updates s ! p))" by simp
      with e qe pl us show ?thesis by (simp add: nth_append)
    qed
  qed
  from 1 2 3 4 show ?thesis by (simp only: log_inv_def simp_thms)
qed

lemma step_log_inv: "log_inv s \<Longrightarrow> log_inv (step e s)"
proof (cases e)
  case (ProcessFiles files mk_id)
  assume "log_inv s"
  then show ?thesis
    by (rule log_inv_frame) (simp_all add: ProcessFiles processFiles_def Let_def split: option.splits sum.splits)
next
  case (SetUrlInput t)
  assume "log_inv s"
  then show ?thesis by (rule log_inv_frame) (simp_all add: SetUrlInput)
next
  case (FetchFromUrls outcome mk_id)
  assume "log_inv s"
  then show ?thesis
    by (rule log_inv_frame) (simp_all add: FetchFromUrls handleFetchFromUrls_def Let_def)
next
  case (SetNameStyle style)
  assume "log_inv s"
  then show ?thesis by (rule log_inv_frame) (simp_all add: SetNameStyle)
next
  case GenerateAll
  assume l: "log_inv s"
  show ?thesis
  proof (cases "filter (\<lambda>img. status img = Queued) (images s) = []")
    case True
    then have "handleGenerateAllNames s = s" by (simp add: handleGenerateAllNames_def)
    with l GenerateAll show ?thesis by simp
  next
    case False
    then have "batches (handleGenerateAllNames s) = batches s @ [new_batch (nameStyle s) (images s)]"
      "updates (handleGenerateAllNames s) = updates s"
      by (simp_all add: handleGenerateAllNames_def Let_def new_batch_def)
    with log_inv_generate [OF l] GenerateAll show ?thesis by simp
  qed
next
  case (Settle b k out)
  assume l: "log_inv s"
  have u: "updates (settle b k out s) = updates s"
    by (simp add: settle_def Let_def)
  show ?thesis
  proof (cases "b < length (batches s) \<and> k < length (slots (batches s ! b)) \<and>
      snd (slots (batches s ! b) ! k) = Pending")
    case False
    then have "settle b k out s = s" by (auto simp: settle_def Let_def)
    with l Settle show ?thesis by simp
  next
    case True
    then have 1: "b < length (batches s)" and 2: "k < length (slots (batches s ! b))"
      by simp_all
    from True have 3: "batches (settle b k out s) = (batches s)[b := settled (batches s ! b) k out]"
      by (simp add: settle_def Let_def settled_def)
    from log_inv_settle [OF l 1 2 3 u] Settle show ?thesis by simp
  qed
next
  case (Resume b)
  assume l: "log_inv s"
  show ?thesis
  proof (cases "b < length (batches s) \<and> cursor (batches s ! b) < length (slots (batches s ! b))")
    case False
    then have "resume b s = s" by (auto simp: resume_def Let_def)
    with l Resume show ?thesis by simp
  next
    case True
    show ?thesis
    proof (cases "snd (slots (batches s ! b) ! cursor (batches s ! b))")
      case Pending
      with True have "resume b s = s" by (simp add: resume_def Let_def)
      with l Resume show ?thesis by simp
    next
      case (Fulfilled r)
      with True have
        "batches (resume b s) = (batches s)[b := (batches s ! b)\<lparr>cursor := Suc (cursor (batches s ! b))\<rparr>]"
        "updates (resume b s) = updates s @ [(b, cursor (batches s ! b), r)]"
        by (simp_all add: resume_def Let_def)
      then have "log_inv (resume b s)"
        using True by (intro log_inv_resume [OF l _ _ Fulfilled]) simp_all
      with Resume show ?thesis by simp
    qed
  qed
next
  case (RemoveImage i)
  assume "log_inv s"
  then show ?thesis by (rule log_inv_frame) (simp_all add: RemoveImage removeImage_def)
next
  case ClearAll
  assume "log_inv s"
  then show ?thesis by (rule log_inv_frame) (simp_all add: ClearAll clearAll_def)
next
  case (CopyToClipboard i t)
  assume "log_inv s"
  then show ?thesis by (rule log_inv_frame) (simp_all add: CopyToClipboard handleCopyToClipboard_def)
next
  case CopyAll
  assume "log_inv s"
  then show ?thesis by (rule log_inv_frame) (simp_all add: CopyAll handleCopyAll_def Let_def)
next
  case (Timeout k)
  assume l: "log_inv s"
  have "batches (timeout k s) = batches s \<and> updates (timeout k s) = updates s"
  proof (cases "k < length (timers s)")
    case True
    then show ?thesis by (cases "snd (timers s ! k)") (simp_all add: timeout_def)
  next
    case False
    then show ?thesis by (simp add: timeout_def)
  qed
  with log_inv_frame [OF l] Timeout show ?thesis by simp
next
  case DismissError
  assume "log_inv s"
  then show ?thesis by (rule log_inv_frame) (simp_all add: DismissError)
qed

lemma run_log_inv: "log_inv s \<Longrightarrow> log_inv (run es s)"
  by (induction es arbitrary: s) (simp_all add: step_log_inv)

subsection \<open>Applied results show in the list\<close>

text \<open>
  A second invariant ties the cursor of an invocation to the list itself: the item with
  the id of a slot below the cursor shows the result of that slot. Together with
  \<open>consistent\<close>, by which an item whose slot lies at or above the cursor is still generating,
  it holds in every state reached from the empty application with fresh ids.
\<close>

lemma carries_merge: "carries (merge_result img r) r"
  by (cases r) simp_all

lemma carries_terminal: "carries img r \<Longrightarrow> status img = Completed \<or> status img = Error"
  by (cases r) simp_all

lemma slot_id_mem: "b < length bs \<Longrightarrow> k < length (slots (bs ! b)) \<Longrightarrow> slot_id bs b k \<in> slot_ids bs"
  unfolding slot_id_def slot_ids_def
  by (metis UN_I image_eqI nth_mem)

lemma applied_append:
  assumes a: "applied_inv imgs bs" and f: "img_id ` set new \<inter> slot_ids bs = {}"
  shows "applied_inv (imgs @ new) bs"
  unfolding applied_inv_def
proof (intro allI impI)
  fix b k assume b: "b < length bs" and k: "k < cursor (bs ! b)"
  from a b k have kl: "k < length (slots (bs ! b))"
    and ex: "\<exists>r. snd (slots (bs ! b) ! k) = Fulfilled r \<and>
             (\<forall>img \<in> set imgs. img_id img = slot_id bs b k \<longrightarrow> carries img r)"
    unfolding applied_inv_def by blast+
  then obtain r where r: "snd (slots (bs ! b) ! k) = Fulfilled r"
    "\<forall>img \<in> set imgs. img_id img = slot_id bs b k \<longrightarrow> carries img r" by blast
  have "\<forall>img \<in> set (imgs @ new). img_id img = slot_id bs b k \<longrightarrow> carries img r"
  proof (intro ballI impI)
    fix img assume i: "img \<in> set (imgs @ new)" and e: "img_id img = slot_id bs b k"
    from slot_id_mem [OF b kl] e have "img_id img \<in> slot_ids bs" by simp
    with f have "img \<notin> set new" by auto
    with i have "img \<in> set imgs" by simp
    with r(2) e show "carries img r" by blast
  qed
  with kl r(1) show "k < length (slots (bs ! b)) \<and>
        (\<exists>r. snd (slots (bs ! b) ! k) = Fulfilled r \<and>
             (\<forall>img \<in> set (imgs @ new). img_id img = slot_id bs b k \<longrightarrow> carries img r))"
    by blast
qed

lemma applied_filter: "applied_inv imgs bs \<Longrightarrow> applied_inv (filter P imgs) bs"
  unfolding applied_inv_def by (simp) blast

lemma applied_same: "applied_inv imgs bs \<Longrightarrow> imgs' = imgs \<Longrightarrow> bs' = bs \<Longrightarrow> applied_inv imgs' bs'"
  by simp

lemma start_generating_carries: "carries img r \<Longrightarrow> start_generating img = img"
  using carries_terminal [of img r] by (auto simp: start_generating_def)

lemma applied_generate:
  assumes a: "applied_inv imgs bs"
  shows "applied_inv (map start_generating imgs) (bs @ [new_batch st imgs])"
  unfolding applied_inv_def
proof (intro allI impI)
  let ?bs = "bs @ [new_batch st imgs]"
  fix b k assume b: "b < length ?bs" and k: "k < cursor (?bs ! b)"
  have old: "b < length bs"
  proof (rule ccontr)
    assume "\<not> b < length bs"
    with b have "b = length bs" by simp
    with k show False by (simp add: new_batch_def)
  qed
  with k have k': "k < cursor (bs ! b)" by (simp add: nth_append)
  from a old k' have kl: "k < length (slots (bs ! b))"
    and ex: "\<exists>r. snd (slots (bs ! b) ! k) = Fulfilled r \<and>
             (\<forall>img \<in> set imgs. img_id img = slot_id bs b k \<longrightarrow> carries img r)"
    unfolding applied_inv_def by blast+
  then obtain r where r: "snd (slots (bs ! b) ! k) = Fulfilled r"
    "\<forall>img \<in> set imgs. img_id img = slot_id bs b k \<longrightarrow> carries img r" by blast
  have "\<forall>img' \<in> set (map start_generating imgs). img_id img' = slot_id ?bs b k \<longrightarrow> carries img' r"
  proof (intro ballI impI)
    fix img' assume i: "img' \<in> set (map start_generating imgs)" and e: "img_id img' = slot_id ?bs b k"
    from i obtain img where img: "img \<in> set imgs" and eq: "img' = start_generating img"
      by auto
    from e old have "img_id img = slot_id bs b k"
      unfolding eq by (simp add: slot_id_snoc_old)
    with r(2) img have c: "carries img r" by blast
    show "carries img' r"
      unfolding eq start_generating_carries [OF c] by (rule c)
  qed
  with kl r(1) old show "k < length (slots (?bs ! b)) \<and>
        (\<exists>r. snd (slots (?bs ! b) ! k) = Fulfilled r \<and>
             (\<forall>img \<in> set (map start_generating imgs). img_id img = slot_id ?bs b k \<longrightarrow> carries img r))"
    by (simp add: nth_append slot_id_snoc_old)
qed

lemma applied_settle:
  assumes a: "applied_inv imgs bs" and b: "b < length bs" and k: "k < length (slots (bs ! b))"
    and p: "snd (slots (bs ! b) ! k) = Pending"
  shows "applied_inv imgs (bs[b := settled (bs ! b) k out])"
  unfolding applied_inv_def
proof (intro allI impI)
  let ?bs = "bs[b := settled (bs ! b) k out]"
  fix b' k' assume b': "b' < length ?bs" and k': "k' < cursor (?bs ! b')"
  from b' have bl: "b' < length bs" by simp
  from k' b bl have kc: "k' < cursor (bs ! b')"
    by (cases "b' = b") (simp_all add: settled_def)
  from a bl kc have kl: "k' < length (slots (bs ! b'))"
    and ex: "\<exists>r. snd (slots (bs ! b') ! k') = Fulfilled r \<and>
             (\<forall>img \<in> set imgs. img_id img = slot_id bs b' k' \<longrightarrow> carries img r)"
    unfolding applied_inv_def by blast+
  then obtain r where r: "snd (slots (bs ! b') ! k') = Fulfilled r"
    "\<forall>img \<in> set imgs. img_id img = slot_id bs b' k' \<longrightarrow> carries img r" by blast
  from r(1) p have ne: "\<not> (b' = b \<and> k' = k)" by auto
  have sl: "snd (slots (?bs ! b') ! k') = snd (slots (bs ! b') ! k')"
    using ne b bl kl by (cases "b' = b") (auto simp: settled_def nth_list_update)
  have ln: "length (slots (?bs ! b')) = length (slots (bs ! b'))"
    using b bl by (cases "b' = b") (simp_all add: settled_def)
  from kl r sl ln b k show "k' < length (slots (?bs ! b')) \<and>
        (\<exists>r. snd (slots (?bs ! b') ! k') = Fulfilled r \<and>
             (\<forall>img \<in> set imgs. img_id img = slot_id ?bs b' k' \<longrightarrow> carries img r))"
    by (simp add: slot_id_settled)
qed

lemma applied_resume:
  assumes c: "consistent imgs bs" and a: "applied_inv imgs bs" and b: "b < length bs"
    and k: "cursor (bs ! b) < length (slots (bs ! b))"
    and f: "snd (slots (bs ! b) ! cursor (bs ! b)) = Fulfilled r"
  shows "applied_inv (apply_result r imgs) (bs[b := (bs ! b)\<lparr>cursor := Suc (cursor (bs ! b))\<rparr>])"
  unfolding applied_inv_def
proof (intro allI impI)
  let ?c = "cursor (bs ! b)"
  let ?bs = "bs[b := (bs ! b)\<lparr>cursor := Suc ?c\<rparr>]"
  have pc: "pending bs b ?c"
    using b k by (simp add: pending_def)
  have rid: "result_id r = slot_id bs b ?c"
    using c b k f unfolding consistent_def tagged_def by blast
  have J3: "\<And>img b k. img \<in> set imgs \<Longrightarrow> pending bs b k \<Longrightarrow> slot_id bs b k = img_id img
      \<Longrightarrow> status img = Generating"
    using c unfolding consistent_def by blast
  fix b' k' assume b': "b' < length ?bs" and k': "k' < cursor (?bs ! b')"
  from b' have bl: "b' < length bs" by simp
  have sl: "slots (?bs ! b') = slots (bs ! b')"
    using b bl by (cases "b' = b") simp_all
  have sid: "slot_id ?bs b' k' = slot_id bs b' k'"
    using b by (simp add: slot_id_advance)
  show "k' < length (slots (?bs ! b')) \<and>
        (\<exists>r'. snd (slots (?bs ! b') ! k') = Fulfilled r' \<and>
             (\<forall>img \<in> set (apply_result r imgs). img_id img = slot_id ?bs b' k' \<longrightarrow> carries img r'))"
  proof (cases "b' = b \<and> k' = ?c")
    case True
    have "\<forall>img' \<in> set (apply_result r imgs). img_id img' = slot_id bs b ?c \<longrightarrow> carries img' r"
    proof (intro ballI impI)
      fix img' assume i: "img' \<in> set (apply_result r imgs)" and e: "img_id img' = slot_id bs b ?c"
      from apply_result_mem [OF i] obtain img where img: "img \<in> set imgs" "img_id img' = img_id img"
        "if img_id img = result_id r then img' = merge_result img r else img' = img" by blast
      from img(2) e rid have "img_id img = result_id r" by simp
      with img(3) have "img' = merge_result img r" by (simp only: if_P if_True)
      then show "carries img' r" by (simp only: carries_merge)
    qed
    with True k f show ?thesis
      unfolding sl sid by blast
  next
    case False
    with k' b bl have kc: "k' < cursor (bs ! b')"
      by (cases "b' = b") auto
    from a bl kc have kl: "k' < length (slots (bs ! b'))"
      and ex: "\<exists>r. snd (slots (bs ! b') ! k') = Fulfilled r \<and>
             (\<forall>img \<in> set imgs. img_id img = slot_id bs b' k' \<longrightarrow> carries img r)"
      unfolding applied_inv_def by blast+
    then obtain r' where r': "snd (slots (bs ! b') ! k') = Fulfilled r'"
      "\<forall>img \<in> set imgs. img_id img = slot_id bs b' k' \<longrightarrow> carries img r'" by blast
    have "\<forall>img' \<in> set (apply_result r imgs). img_id img' = slot_id bs b' k' \<longrightarrow> carries img' r'"
    proof (intro ballI impI)
      fix img' assume i: "img' \<in> set (apply_result r imgs)" and e: "img_id img' = slot_id bs b' k'"
      from apply_result_mem [OF i] obtain img where img: "img \<in> set imgs" "img_id img' = img_id img"
        "if img_id img = result_id r then img' = merge_result img r else img' = img" by blast
      from img(2) e have e': "img_id img = slot_id bs b' k'" by simp
      with r'(2) img(1) have cr: "carries img r'" by blast
      have "img_id img \<noteq> result_id r"
      proof
        assume "img_id img = result_id r"
        with rid have "slot_id bs b ?c = img_id img" by simp
        from J3 [OF img(1) pc this] carries_terminal [OF cr] show False by simp
      qed
      with img(3) have "img' = img" by (simp only: if_not_P if_False)
      with cr show "carries img' r'" by (simp only:)
    qed
    with kl r'(1) show ?thesis
      unfolding sl sid by blast
  qed
qed

lemma applied_enqueue:
  assumes a: "applied_inv (images s) (batches s)"
    and f: "fresh_supply mk_id n s"
    and i: "images s' = images s @ new"
    and b: "batches s' = batches s"
    and sub: "set (map img_id new) \<subseteq> set (map mk_id [0..<n])"
  shows "applied_inv (images s') (batches s')"
proof -
  from f sub have "img_id ` set new \<inter> slot_ids (batches s) = {}"
    unfolding fresh_supply_def known_ids_alt by auto
  from applied_append [OF a this] i b show ?thesis by simp
qed

lemma applied_frame:
  "applied_inv (images s) (batches s) \<Longrightarrow> images s' = images s \<Longrightarrow> batches s' = batches s
   \<Longrightarrow> applied_inv (images s') (batches s')"
  by simp

lemma step_applied:
  assumes c: "consistent (images s) (batches s)" and a: "applied_inv (images s) (batches s)"
    and f: "fresh e s"
  shows "applied_inv (images (step e s)) (batches (step e s))"
proof (cases e)
  case (ProcessFiles files mk_id)
  let ?n = "case files of None \<Rightarrow> 0 | Some fs \<Rightarrow> length fs"
  from f ProcessFiles have fs: "fresh_supply mk_id ?n s" by simp
  then have "distinct (map mk_id [0..<?n])" by (simp add: fresh_supply_def)
  from processFiles_images [OF this, of s] obtain new where
    n: "images (processFiles files mk_id s) = images s @ new"
    "set (map img_id new) \<subseteq> set (map mk_id [0..<?n])" by blast
  from applied_enqueue [OF a fs n(1) _ n(2)] ProcessFiles show ?thesis by simp
next
  case (FetchFromUrls outcome mk_id)
  let ?n = "length (urls_of (urlInput s))"
  from f FetchFromUrls have fs: "fresh_supply mk_id ?n s" by simp
  then have "distinct (map mk_id [0..<?n])" by (simp add: fresh_supply_def)
  from handleFetchFromUrls_images [OF this, of outcome] obtain new where
    n: "images (handleFetchFromUrls outcome mk_id s) = images s @ new"
    "set (map img_id new) \<subseteq> set (map mk_id [0..<?n])" by blast
  from applied_enqueue [OF a fs n(1) _ n(2)] FetchFromUrls show ?thesis by simp
next
  case (SetUrlInput t)
  with applied_frame [OF a, of "step e s"] show ?thesis by simp
next
  case (SetNameStyle style)
  with applied_frame [OF a, of "step e s"] show ?thesis by simp
next
  case GenerateAll
  from generate_parts [of s] show ?thesis
  proof
    assume "images (handleGenerateAllNames s) = images s \<and> batches (handleGenerateAllNames s) = batches s"
    with applied_frame [OF a, of "step e s"] GenerateAll show ?thesis by simp
  next
    assume "images (handleGenerateAllNames s) = map start_generating (images s) \<and>
      batches (handleGenerateAllNames s) = batches s @ [new_batch (nameStyle s) (images s)]"
    with applied_generate [OF a] GenerateAll show ?thesis by simp
  qed
next
  case (Settle b k out)
  show ?thesis
  proof (cases "b < length (batches s) \<and> k < length (slots (batches s ! b)) \<and>
      snd (slots (batches s ! b) ! k) = Pending")
    case False
    then have "settle b k out s = s" by (auto simp: settle_def Let_def)
    with a Settle show ?thesis by simp
  next
    case True
    then have 1: "b < length (batches s)" and 2: "k < length (slots (batches s ! b))"
      and 3: "snd (slots (batches s ! b) ! k) = Pending"
      by simp_all
    from True have "batches (settle b k out s) = (batches s)[b := settled (batches s ! b) k out]"
      "images (settle b k out s) = images s"
      by (simp_all add: settle_def Let_def settled_def)
    with applied_settle [OF a 1 2 3] Settle show ?thesis by simp
  qed
next
  case (Resume b)
  from resume_parts [of b s] show ?thesis
  proof (elim disjE exE)
    assume "images (resume b s) = images s \<and> batches (resume b s) = batches s"
    with applied_frame [OF a, of "step e s"] Resume show ?thesis by simp
  next
    fix r
    assume h: "b < length (batches s) \<and> cursor (batches s ! b) < length (slots (batches s ! b)) \<and>
     snd (slots (batches s ! b) ! cursor (batches s ! b)) = Fulfilled r \<and>
     images (resume b s) = apply_result r (images s) \<and>
     batches (resume b s) = (batches s)[b := (batches s ! b)\<lparr>cursor := Suc (cursor (batches s ! b))\<rparr>]"
    then have 1: "b < length (batches s)" and 2: "cursor (batches s ! b) < length (slots (batches s ! b))"
      and 3: "snd (slots (batches s ! b) ! cursor (batches s ! b)) = Fulfilled r" by simp_all
    from applied_resume [OF c a 1 2 3] h Resume show ?thesis by simp
  qed
next
  case (RemoveImage i)
  from applied_filter [OF a] RemoveImage show ?thesis
    by (simp add: removeImage_def)
next
  case ClearAll
  from applied_filter [OF a, of "\<lambda>_. False"] ClearAll
  show ?thesis by (simp add: clearAll_def)
next
  case (CopyToClipboard i t)
  with applied_frame [OF a, of "step e s"] show ?thesis by (simp add: handleCopyToClipboard_def)
next
  case CopyAll
  with applied_frame [OF a, of "step e s"] handleCopyAll_frame [of s] show ?thesis by simp
next
  case (Timeout k)
  with applied_frame [OF a, of "step e s"] timeout_frame [of k s] show ?thesis by simp
next
  case DismissError
  with applied_frame [OF a, of "step e s"] show ?thesis by simp
qed

lemma run_append: "run (xs @ ys) s = run ys (run xs s)"
  by (induction xs arbitrary: s) simp_all

lemma fresh_run_append: "fresh_run (xs @ ys) s = (fresh_run xs s \<and> fresh_run ys (run xs s))"
  by (induction xs arbitrary: s) simp_all

lemma run_sound:
  "consistent (images s) (batches s) \<Longrightarrow> applied_inv (images s) (batches s) \<Longrightarrow> fresh_run es s
   \<Longrightarrow> consistent (images (run es s)) (batches (run es s)) \<and>
       applied_inv (images (run es s)) (batches (run es s))"
proof (induction es arbitrary: s)
  case Nil
  then show ?case by simp
next
  case (Cons e es)
  from Cons.prems(3) have f: "fresh e s" and fr: "fresh_run es (step e s)" by simp_all
  from step_consistent [OF Cons.prems(1) f]
  have c: "consistent (images (step e s)) (batches (step e s))" by simp
  from step_applied [OF Cons.prems(1,2) f]
  have a: "applied_inv (images (step e s)) (batches (step e s))" .
  from Cons.IH [OF c a fr] show ?case by simp
qed

lemma applied_initial: "applied_inv (images initial) (batches initial)"
  by (simp add: initial_def applied_inv_def)

lemma reach_sound:
  "fresh_run es initial
   \<Longrightarrow> consistent (images (run es initial)) (batches (run es initial)) \<and>
       applied_inv (images (run es initial)) (batches (run es initial))"
  using consistent_initial applied_initial by (rule run_sound)

subsection \<open>What one step does to the log and to the list\<close>

lemma processFiles_appends:
  "\<exists>new. images (processFiles files mk_id s) = images s @ new \<and> (\<forall>n \<in> set new. status n = Queued)"
proof (cases files)
  case None
  have "images (processFiles files mk_id s) = images s @ []"
    unfolding None by (simp add: processFiles_def)
  then show ?thesis by (intro exI [of _ "[]"]) simp
next
  case (Some fs)
  define ps where "ps = List.map_filter (\<lambda>p. p)
     (map (\<lambda>f. if \<not> prefix ''image/'' (file_type f) then None else Some (read_file f)) fs)"
  have unf: "processFiles (Some fs) mk_id s =
    (case promise_all ps of
       Inr results \<Rightarrow> s\<lparr>error := [], images := images s @ map (\<lambda>(k, res). queued_image (mk_id k) res) (enumerate 0 results)\<rparr>
     | Inl message \<Rightarrow> s\<lparr>error := message\<rparr>)"
    unfolding ps_def by (rule processFiles_Some)
  show ?thesis
  proof (cases "promise_all ps")
    case (Inl message)
    have "images (processFiles files mk_id s) = images s @ []"
      unfolding Some unf Inl by simp
    then show ?thesis by (intro exI [of _ "[]"]) simp
  next
    case (Inr rs)
    define new where "new = map (\<lambda>(k, res). queued_image (mk_id k) res) (enumerate 0 rs)"
    have i: "images (processFiles files mk_id s) = images s @ new"
      unfolding Some unf Inr new_def by simp
    have q: "\<forall>n \<in> set new. status n = Queued"
      unfolding new_def by (simp add: case_prod_beta)
    from i q show ?thesis by blast
  qed
qed

lemma handleFetchFromUrls_appends:
  "\<exists>new. images (handleFetchFromUrls outcome mk_id s) = images s @ new \<and>
     (\<forall>n \<in> set new. status n = Queued)"
proof -
  define urls where "urls = urls_of (urlInput s)"
  define new where "new = List.map_filter (case_sum (\<lambda>x. None) Some)
     (map (\<lambda>(k, url). fetch_url url (mk_id k) (outcome k)) (enumerate 0 urls))"
  have i: "images (handleFetchFromUrls outcome mk_id s) = images s @ (if urls = [] then [] else new)"
    by (simp add: handleFetchFromUrls_def Let_def urls_def new_def)
  have q: "\<forall>n \<in> set new. status n = Queued"
    unfolding new_def using fetch_successes by blast
  show ?thesis
  proof (cases "urls = []")
    case True
    with i show ?thesis by (intro exI [of _ "[]"]) simp
  next
    case False
    with i q show ?thesis by (intro exI [of _ new]) simp
  qed
qed

lemma finished_append:
  "\<forall>n \<in> set new. status n = Queued \<Longrightarrow> img' \<in> set (imgs @ new) \<Longrightarrow> finished img' \<Longrightarrow> img' \<in> set imgs"
  by (auto simp: finished_def)

lemma finished_start:
  assumes i: "img' \<in> set (map start_generating imgs)" and f: "finished img'"
  shows "img' \<in> set imgs"
proof -
  from i obtain img where img: "img \<in> set imgs" and e: "img' = start_generating img" by auto
  have "status img \<noteq> Queued"
  proof
    assume "status img = Queued"
    then have "status (start_generating img) = Generating" by (simp add: start_generating_def)
    with f show False unfolding e finished_def by simp
  qed
  then have "start_generating img = img" by (simp add: start_generating_def)
  with img show ?thesis unfolding e by (simp only:)
qed

lemma apply_result_carries:
  assumes i: "img' \<in> set (apply_result r imgs)" and e: "img_id img' = result_id r"
  shows "carries img' r"
proof -
  from apply_result_mem [OF i] obtain img where img: "img \<in> set imgs" "img_id img' = img_id img"
    "if img_id img = result_id r then img' = merge_result img r else img' = img" by blast
  from img(2) e have "img_id img = result_id r" by simp
  with img(3) have "img' = merge_result img r" by (simp only: if_P if_True)
  then show ?thesis by (simp only: carries_merge)
qed

lemma step_quiet_log:
  "updates (step e s) = updates s \<and>
     (\<forall>img' \<in> set (images (step e s)). finished img' \<longrightarrow> img' \<in> set (images s)) \<or>
   (\<exists>b r. e = Resume b \<and> b < length (batches s) \<and>
      cursor (batches s ! b) < length (slots (batches s ! b)) \<and>
      snd (slots (batches s ! b) ! cursor (batches s ! b)) = Fulfilled r \<and>
      updates (step e s) = updates s @ [(b, cursor (batches s ! b), r)] \<and>
      images (step e s) =
        map (\<lambda>img. if img_id img = result_id r then merge_result img r else img) (images s) \<and>
      (\<forall>img \<in> set (images (step e s)). img_id img = result_id r \<longrightarrow> carries img r))"
proof (cases e)
  case (ProcessFiles files mk_id)
  have u: "updates (processFiles files mk_id s) = updates s"
    by (simp add: processFiles_def Let_def split: option.splits sum.splits)
  from processFiles_appends [of files mk_id s] obtain new where
    n: "images (processFiles files mk_id s) = images s @ new" "\<forall>n \<in> set new. status n = Queued"
    by blast
  from finished_append [OF n(2)] have "\<forall>img' \<in> set (images s @ new). finished img' \<longrightarrow> img' \<in> set (images s)"
    by blast
  with u n(1) ProcessFiles show ?thesis by simp
next
  case (FetchFromUrls outcome mk_id)
  have u: "updates (handleFetchFromUrls outcome mk_id s) = updates s"
    by (simp add: handleFetchFromUrls_def Let_def)
  from handleFetchFromUrls_appends [of outcome mk_id s] obtain new where
    n: "images (handleFetchFromUrls outcome mk_id s) = images s @ new" "\<forall>n \<in> set new. status n = Queued"
    by blast
  from finished_append [OF n(2)] have "\<forall>img' \<in> set (images s @ new). finished img' \<longrightarrow> img' \<in> set (images s)"
    by blast
  with u n(1) FetchFromUrls show ?thesis by simp
next
  case (SetUrlInput t)
  then show ?thesis by simp
next
  case (SetNameStyle style)
  then show ?thesis by simp
next
  case GenerateAll
  have u: "updates (handleGenerateAllNames s) = updates s"
    by (simp add: handleGenerateAllNames_def Let_def)
  from generate_parts [of s]
  have "\<forall>img' \<in> set (images (handleGenerateAllNames s)). finished img' \<longrightarrow> img' \<in> set (images s)"
  proof
    assume "images (handleGenerateAllNames s) = images s \<and> batches (handleGenerateAllNames s) = batches s"
    then show ?thesis by simp
  next
    assume "images (handleGenerateAllNames s) = map start_generating (images s) \<and>
      batches (handleGenerateAllNames s) = batches s @ [new_batch (nameStyle s) (images s)]"
    then have "images (handleGenerateAllNames s) = map start_generating (images s)" by simp
    then show ?thesis using finished_start by metis
  qed
  with u GenerateAll show ?thesis by simp
next
  case (Settle b k out)
  have "updates (settle b k out s) = updates s" "images (settle b k out s) = images s"
    by (simp_all add: settle_def Let_def)
  with Settle show ?thesis by simp
next
  case (Resume b)
  show ?thesis
  proof (cases "b < length (batches s) \<and> cursor (batches s ! b) < length (slots (batches s ! b))")
    case False
    then have "resume b s = s" by (auto simp: resume_def Let_def)
    with Resume show ?thesis by simp
  next
    case True
    show ?thesis
    proof (cases "snd (slots (batches s ! b) ! cursor (batches s ! b))")
      case Pending
      with True have "resume b s = s" by (simp add: resume_def Let_def)
      with Resume show ?thesis by simp
    next
      case (Fulfilled r)
      with True have i: "images (resume b s) = apply_result r (images s)"
        and u: "updates (resume b s) = updates s @ [(b, cursor (batches s ! b), r)]"
        by (simp_all add: resume_def Let_def)
      have m: "images (resume b s) =
          map (\<lambda>img. if img_id img = result_id r then merge_result img r else img) (images s)"
        unfolding i by (simp only: apply_result_def)
      have c: "\<forall>img \<in> set (images (resume b s)). img_id img = result_id r \<longrightarrow> carries img r"
        unfolding i using apply_result_carries by blast
      have "\<exists>b' r'. Resume b = Resume b' \<and> b' < length (batches s) \<and>
        cursor (batches s ! b') < length (slots (batches s ! b')) \<and>
        snd (slots (batches s ! b') ! cursor (batches s ! b')) = Fulfilled r' \<and>
        updates (resume b s) = updates s @ [(b', cursor (batches s ! b'), r')] \<and>
        images (resume b s) =
          map (\<lambda>img. if img_id img = result_id r' then merge_result img r' else img) (images s) \<and>
        (\<forall>img \<in> set (images (resume b s)). img_id img = result_id r' \<longrightarrow> carries img r')"
        using True Fulfilled u m c by (intro exI [of _ b] exI [of _ r]) (simp only: simp_thms)
      with Resume show ?thesis by simp
    qed
  qed
next
  case (RemoveImage i)
  then show ?thesis by (simp add: removeImage_def)
next
  case ClearAll
  then show ?thesis by (simp add: clearAll_def)
next
  case (CopyToClipboard i t)
  then show ?thesis by (simp add: handleCopyToClipboard_def)
next
  case CopyAll
  have "updates (handleCopyAll s) = updates s" by (simp add: handleCopyAll_def Let_def)
  with CopyAll handleCopyAll_frame [of s] show ?thesis by simp
next
  case (Timeout k)
  have "updates (timeout k s) = updates s"
  proof (cases "k < length (timers s)")
    case True
    then show ?thesis by (cases "snd (timers s ! k)") (simp_all add: timeout_def)
  next
    case False
    then show ?thesis by (simp add: timeout_def)
  qed
  with Timeout timeout_frame [of k s] show ?thesis by simp
next
  case DismissError
  then show ?thesis by simp
qed

lemma map_fst_update: "k < length xs \<Longrightarrow> map fst (xs[k := (fst (xs ! k), y)]) = map fst xs"
  by (simp add: map_update list_update_same_conv)

lemma step_snapshot:
  assumes b: "b < length (batches s)"
  shows "b < length (batches (step e s)) \<and>
     map fst (slots (batches (step e s) ! b)) = map fst (slots (batches s ! b))"
proof (cases e)
  case (ProcessFiles files mk_id)
  with b show ?thesis by simp
next
  case (FetchFromUrls outcome mk_id)
  with b show ?thesis by simp
next
  case (SetUrlInput t)
  with b show ?thesis by simp
next
  case (SetNameStyle style)
  with b show ?thesis by simp
next
  case GenerateAll
  from generate_parts [of s] b GenerateAll show ?thesis
    by (auto simp: nth_append)
next
  case (Settle b' k out)
  show ?thesis
  proof (cases "b' < length (batches s) \<and> k < length (slots (batches s ! b')) \<and>
      snd (slots (batches s ! b') ! k) = Pending")
    case False
    then have "settle b' k out s = s" by (auto simp: settle_def Let_def)
    with b Settle show ?thesis by simp
  next
    case True
    then have bs: "batches (settle b' k out s) = (batches s)[b' := settled (batches s ! b') k out]"
      by (simp add: settle_def Let_def settled_def)
    from True have "map fst (slots (settled (batches s ! b') k out)) = map fst (slots (batches s ! b'))"
      by (simp add: settled_def map_fst_update)
    with b True show ?thesis
      unfolding Settle step.simps bs by (cases "b = b'") simp_all
  qed
next
  case (Resume b')
  from resume_parts [of b' s] b Resume show ?thesis
    by (cases "b = b'") auto
next
  case (RemoveImage i)
  with b show ?thesis by (simp add: removeImage_def)
next
  case ClearAll
  with b show ?thesis by (simp add: clearAll_def)
next
  case (CopyToClipboard i t)
  with b show ?thesis by (simp add: handleCopyToClipboard_def)
next
  case CopyAll
  with b handleCopyAll_frame [of s] show ?thesis by simp
next
  case (Timeout k)
  with b timeout_frame [of k s] show ?thesis by simp
next
  case DismissError
  with b show ?thesis by simp
qed

lemma run_snapshot:
  "b < length (batches s) \<Longrightarrow>
     b < length (batches (run es s)) \<and>
     map fst (slots (batches (run es s) ! b)) = map fst (slots (batches s ! b))"
proof (induction es arbitrary: s)
  case Nil
  then show ?case by simp
next
  case (Cons e es)
  from step_snapshot [OF Cons.prems, of e] Cons.IH [of "step e s"] show ?case by simp
qed

lemma generate_snapshot:
  assumes q: "filter (\<lambda>img. status img = Queued) (images s) \<noteq> []"
  shows "length (batches (step GenerateAll s)) = Suc (length (batches s)) \<and>
     map fst (slots (batches (step GenerateAll s) ! length (batches s)))
       = filter (\<lambda>img. status img = Queued) (images s)"
  using q by (simp add: handleGenerateAllNames_def Let_def comp_def)

lemma earlier_finished_first:
  assumes c: "consistent imgs bs" and a: "applied_inv imgs bs"
    and b: "b < length bs" and ij: "i < j" and j: "j < length (slots (bs ! b))"
    and x: "x \<in> set imgs" "img_id x = slot_id bs b i"
    and y: "y \<in> set imgs" "img_id y = slot_id bs b j" "finished y"
  shows "finished x"
proof -
  have jc: "j < cursor (bs ! b)"
  proof (rule ccontr)
    assume "\<not> j < cursor (bs ! b)"
    with b j have "pending bs b j" by (simp add: pending_def)
    with c y(1,2) have "status y = Generating"
      unfolding consistent_def by metis
    with y(3) show False by (simp add: finished_def)
  qed
  with ij have "i < cursor (bs ! b)" by simp
  with a b obtain r where "\<forall>img \<in> set imgs. img_id img = slot_id bs b i \<longrightarrow> carries img r"
    unfolding applied_inv_def by blast
  with x have "carries x r" by blast
  from carries_terminal [OF this] show ?thesis by (simp add: finished_def)
qed

lemma log_order:
  assumes l: "log_inv s"
  shows "\<forall>p < length (updates s). \<forall>q < length (updates s).
       fst (updates s ! p) = fst (updates s ! q) \<and>
       fst (snd (updates s ! p)) < fst (snd (updates s ! q)) \<longrightarrow> p < q"
proof (intro allI impI)
  fix p q
  assume p: "p < length (updates s)" and q: "q < length (updates s)"
    and a: "fst (updates s ! p) = fst (updates s ! q) \<and>
     fst (snd (updates s ! p)) < fst (snd (updates s ! q))"
  have ord: "\<And>p q. q < length (updates s) \<Longrightarrow> p < q \<Longrightarrow>
      fst (updates s ! p) = fst (updates s ! q) \<Longrightarrow>
      fst (snd (updates s ! p)) < fst (snd (updates s ! q))"
    using l by (simp add: log_inv_def)
  show "p < q"
  proof (rule ccontr)
    assume "\<not> p < q"
    then have "q < p \<or> q = p" by auto
    then show False
    proof
      assume "q < p"
      from ord [OF p this] a show False by simp
    next
      assume "q = p"
      with a show False by simp
    qed
  qed
qed

lemma log_slots:
  assumes l: "log_inv s"
  shows "\<forall>u \<in> set (updates s). fst u < length (batches s) \<and>
       fst (snd u) < length (slots (batches s ! fst u)) \<and>
       result_id (snd (snd u)) = img_id (fst (slots (batches s ! fst u) ! fst (snd u)))"
proof
  fix u assume u: "u \<in> set (updates s)"
  with l have a: "fst u < length (batches s)" "fst (snd u) < cursor (batches s ! fst u)"
    "result_id (snd (snd u)) = slot_id (batches s) (fst u) (fst (snd u))"
    by (simp_all add: log_inv_def)
  from l a(1) have "cursor (batches s ! fst u) \<le> length (slots (batches s ! fst u))"
    by (simp add: log_inv_def)
  with a show "fst u < length (batches s) \<and>
     fst (snd u) < length (slots (batches s ! fst u)) \<and>
     result_id (snd (snd u)) = img_id (fst (slots (batches s ! fst u) ! fst (snd u)))"
    by (simp add: slot_id_def)
qed

lemma finished_in_snapshot_order:
  assumes fr: "fresh_run es initial"
  shows "\<forall>b < length (batches (run es initial)).
     \<forall>j < length (slots (batches (run es initial) ! b)). \<forall>i < j.
     \<forall>x \<in> set (images (run es initial)). \<forall>y \<in> set (images (run es initial)).
       img_id x = img_id (fst (slots (batches (run es initial) ! b) ! i)) \<and>
       img_id y = img_id (fst (slots (batches (run es initial) ! b) ! j)) \<and> finished y
       \<longrightarrow> finished x"
proof (intro allI impI ballI)
  fix b j i x y
  define s where "s = run es initial"
  assume b: "b < length (batches (run es initial))"
    and j: "j < length (slots (batches (run es initial) ! b))" and ij: "i < j"
    and x: "x \<in> set (images (run es initial))" and y: "y \<in> set (images (run es initial))"
    and h: "img_id x = img_id (fst (slots (batches (run es initial) ! b) ! i)) \<and>
       img_id y = img_id (fst (slots (batches (run es initial) ! b) ! j)) \<and> finished y"
  from reach_sound [OF fr] have c: "consistent (images s) (batches s)"
    and a: "applied_inv (images s) (batches s)"
    by (simp_all add: s_def)
  from h have hx: "img_id x = slot_id (batches s) b i" and hy: "img_id y = slot_id (batches s) b j"
    and fy: "finished y"
    by (simp_all add: slot_id_def s_def)
  from b j x y have b': "b < length (batches s)" and j': "j < length (slots (batches s ! b))"
    and x': "x \<in> set (images s)" and y': "y \<in> set (images s)"
    by (simp_all add: s_def)
  from c a b' ij j' x' hx y' hy fy show "finished x" by (rule earlier_finished_first)
qed

text \<open>
  Claim C3. Take the state after any events in any order from the empty application,
  service calls coming back in any order among them, and one more event.

  \<^item> The results of an invocation that have been applied are those of its slots
    \<open>0, 1, \<dots>\<close> up to its cursor, applied in this order; of two logged updates of one
    invocation, the one for the earlier slot of the snapshot comes earlier in the log; and
    every logged update carries the id of the image captured in its slot.
  \<^item> The event either adds nothing to the log, and then every item of the list that has
    its result had it, unchanged, before; or it is a loop step of an invocation whose
    cursor slot has come back, and then it adds that slot and its result to the log and,
    in the same step, merges that result into the items of the list with the id of the
    result, which show it afterwards. So a call that comes back changes no item, and the
    list changes with the log and only with it.
  \<^item> The snapshot of an invocation, the images captured in its slots, is the list of the
    queued items at the invocation and never changes.
  \<^item> With fresh ids: of two slots \<open>i\<close> before \<open>j\<close> of one invocation, whenever the item
    of slot \<open>j\<close> shows its result in the list, so does the item of slot \<open>i\<close>, if it is
    still in the list.
\<close>

theorem updates_applied_in_snapshot_order:
  "let s = run es initial; s' = step e s in
     (\<forall>b < length (batches s).
         cursor (batches s ! b) \<le> length (slots (batches s ! b)) \<and>
         batch_log b s = [0..<cursor (batches s ! b)]) \<and>
     (\<forall>p < length (updates s). \<forall>q < length (updates s).
         fst (updates s ! p) = fst (updates s ! q) \<and>
         fst (snd (updates s ! p)) < fst (snd (updates s ! q))
         \<longrightarrow> p < q) \<and>
     (\<forall>u \<in> set (updates s).
         fst u < length (batches s) \<and>
         fst (snd u) < length (slots (batches s ! fst u)) \<and>
         result_id (snd (snd u)) = img_id (fst (slots (batches s ! fst u) ! fst (snd u)))) \<and>
     (updates s' = updates s \<and>
        (\<forall>img' \<in> set (images s'). finished img' \<longrightarrow> img' \<in> set (images s)) \<or>
      (\<exists>b r. e = Resume b \<and> b < length (batches s) \<and>
         cursor (batches s ! b) < length (slots (batches s ! b)) \<and>
         snd (slots (batches s ! b) ! cursor (batches s ! b)) = Fulfilled r \<and>
         updates s' = updates s @ [(b, cursor (batches s ! b), r)] \<and>
         images s' =
           map (\<lambda>img. if img_id img = result_id r then merge_result img r else img) (images s) \<and>
         (\<forall>img \<in> set (images s'). img_id img = result_id r \<longrightarrow> carries img r))) \<and>
     (\<forall>b < length (batches s).
         b < length (batches s') \<and>
         map fst (slots (batches s' ! b)) = map fst (slots (batches s ! b))) \<and>
     (e = GenerateAll \<and> filter (\<lambda>img. status img = Queued) (images s) \<noteq> [] \<longrightarrow>
         length (batches s') = Suc (length (batches s)) \<and>
         map fst (slots (batches s' ! length (batches s)))
           = filter (\<lambda>img. status img = Queued) (images s)) \<and>
     (fresh_run es initial \<longrightarrow>
        (\<forall>b < length (batches s). \<forall>j < length (slots (batches s ! b)). \<forall>i < j.
         \<forall>x \<in> set (images s). \<forall>y \<in> set (images s).
           img_id x = img_id (fst (slots (batches s ! b) ! i)) \<and>
           img_id y = img_id (fst (slots (batches s ! b) ! j)) \<and> finished y
           \<longrightarrow> finished x))"
proof -
  define s where "s = run es initial"
  define s' where "s' = step e s"
  have l: "log_inv s"
    unfolding s_def using log_inv_initial by (rule run_log_inv)
  have 1: "\<forall>b < length (batches s).
         cursor (batches s ! b) \<le> length (slots (batches s ! b)) \<and>
         batch_log b s = [0..<cursor (batches s ! b)]"
    using l by (simp add: log_inv_def)
  note 2 = log_order [OF l]
  note 3 = log_slots [OF l]
  note 4 = step_quiet_log [of e s, folded s'_def]
  have 5: "\<forall>b < length (batches s).
         b < length (batches s') \<and>
         map fst (slots (batches s' ! b)) = map fst (slots (batches s ! b))"
    unfolding s'_def using step_snapshot by blast
  have 6: "e = GenerateAll \<and> filter (\<lambda>img. status img = Queued) (images s) \<noteq> [] \<longrightarrow>
         length (batches s') = Suc (length (batches s)) \<and>
         map fst (slots (batches s' ! length (batches s)))
           = filter (\<lambda>img. status img = Queued) (images s)"
    unfolding s'_def using generate_snapshot by blast
  have 7: "fresh_run es initial \<longrightarrow>
        (\<forall>b < length (batches s). \<forall>j < length (slots (batches s ! b)). \<forall>i < j.
         \<forall>x \<in> set (images s). \<forall>y \<in> set (images s).
           img_id x = img_id (fst (slots (batches s ! b) ! i)) \<and>
           img_id y = img_id (fst (slots (batches s ! b) ! j)) \<and> finished y
           \<longrightarrow> finished x)"
    unfolding s_def using finished_in_snapshot_order by blast
  note parts = 1 2 3 4 5 6 7
  show ?thesis
    unfolding Let_def
    by (intro conjI) (rule parts [unfolded s'_def s_def])+
qed

theorem updates_applied_in_snapshot_order_witness:
  "fresh_run example_session initial \<and>
   map status (images (run (take 2 example_session) initial)) = [Queued, Queued] \<and>
   batches (run (take 2 example_session) initial) = [] \<and>
   map fst (slots (batches (step GenerateAll (run (take 2 example_session) initial)) ! 0))
     = images (run (take 2 example_session) initial) \<and>
   map status (images (run (take 3 example_session) initial)) = [Generating, Generating] \<and>
   map status (images (run (take 4 example_session) initial)) = [Generating, Generating] \<and>
   map status (images (run (take 6 example_session) initial)) = [Generating, Generating] \<and>
   updates (run (take 6 example_session) initial) = [] \<and>
   map status (images (run (take 7 example_session) initial)) = [Error, Generating] \<and>
   updates (run (take 7 example_session) initial) = [(0, 0, ErrorResult ''img-0'' friendly_error)] \<and>
   map status (images (run (take 8 example_session) initial)) = [Error, Completed] \<and>
   updates (run (take 8 example_session) initial) =
     [(0, 0, ErrorResult ''img-0'' friendly_error), (0, 1, CompletedResult ''img-1'' ''Dusk'')] \<and>
   batch_log 0 (run (take 8 example_session) initial)
     = [0..<cursor (batches (run (take 8 example_session) initial) ! 0)] \<and>
   batch_log 0 (run (take 8 example_session) initial) = [0, 1]"
proof -
  have f: "fresh_run example_session initial"
    by code_simp
  have q: "filter (\<lambda>img. status img = Queued) (images (run (take 2 example_session) initial))
       = images (run (take 2 example_session) initial)"
    "images (run (take 2 example_session) initial) \<noteq> []"
    "length (batches (run (take 2 example_session) initial)) = 0"
    by code_simp+
  have v: "map status (images (run (take 2 example_session) initial)) = [Queued, Queued]"
    "batches (run (take 2 example_session) initial) = []"
    "map status (images (run (take 3 example_session) initial)) = [Generating, Generating]"
    "map status (images (run (take 4 example_session) initial)) = [Generating, Generating]"
    "map status (images (run (take 6 example_session) initial)) = [Generating, Generating]"
    "updates (run (take 6 example_session) initial) = []"
    "map status (images (run (take 7 example_session) initial)) = [Error, Generating]"
    "updates (run (take 7 example_session) initial) = [(0, 0, ErrorResult ''img-0'' friendly_error)]"
    "map status (images (run (take 8 example_session) initial)) = [Error, Completed]"
    "updates (run (take 8 example_session) initial) =
       [(0, 0, ErrorResult ''img-0'' friendly_error), (0, 1, CompletedResult ''img-1'' ''Dusk'')]"
    "batch_log 0 (run (take 8 example_session) initial) = [0, 1]"
    by code_simp+
  have l: "0 < length (batches (run (take 8 example_session) initial))"
    by code_simp
  note a = updates_applied_in_snapshot_order [of "take 8 example_session", unfolded Let_def]
  note b = updates_applied_in_snapshot_order [of "take 2 example_session" GenerateAll,
      unfolded Let_def]
  note c2 = conjunct2
  from a [THEN conjunct1, rule_format, OF l]
  have t1: "batch_log 0 (run (take 8 example_session) initial)
     = [0..<cursor (batches (run (take 8 example_session) initial) ! 0)]"
    by (rule conjunct2)
  have g: "GenerateAll = GenerateAll \<and>
     filter (\<lambda>img. status img = Queued) (images (run (take 2 example_session) initial)) \<noteq> []"
    unfolding q(1) using q(2) by simp
  from b [THEN c2, THEN c2, THEN c2, THEN c2, THEN c2, THEN conjunct1, rule_format, OF g]
  have "map fst (slots (batches (step GenerateAll (run (take 2 example_session) initial)) !
          length (batches (run (take 2 example_session) initial))))
     = filter (\<lambda>img. status img = Queued) (images (run (take 2 example_session) initial))"
    by (rule conjunct2)
  then have t2: "map fst (slots (batches (step GenerateAll (run (take 2 example_session) initial)) ! 0))
     = images (run (take 2 example_session) initial)"
    unfolding q .
  from f v t1 t2 show ?thesis by (simp only: simp_thms)
qed

section \<open>One generation pass\<close>

text \<open>
  While only service calls come back and loops go on, the invocation started last stays
  \<open>in_flight\<close>: the loading flag is set exactly while its cursor is below the number of
  its slots. Once all its calls have come back, as many loop steps as it has slots bring
  the cursor to the end.
\<close>

lemma in_flight_settle: "in_flight b n u cs s \<Longrightarrow> in_flight b n u cs (settle b' k out s)"
proof (cases "b' < length (batches s) \<and> k < length (slots (batches s ! b')) \<and>
      snd (slots (batches s ! b') ! k) = Pending")
  case False
  assume i: "in_flight b n u cs s"
  from False have "settle b' k out s = s" by (auto simp: settle_def Let_def)
  with i show ?thesis by simp
next
  case True
  assume i: "in_flight b n u cs s"
  let ?s = "settle b' k out s"
  from True have bs: "batches ?s = (batches s)[b' := settled (batches s ! b') k out]"
    and fr: "isLoading ?s = isLoading s" "updates ?s = updates s" "calls ?s = calls s"
    by (simp_all add: settle_def Let_def settled_def)
  from True have b': "b' < length (batches s)" by simp
  have cur: "\<And>x. x < length (batches s) \<Longrightarrow> cursor (batches ?s ! x) = cursor (batches s ! x)"
    using b' bs by (simp add: nth_list_update settled_def)
  have len: "\<And>x. x < length (batches s) \<Longrightarrow> length (slots (batches ?s ! x)) = length (slots (batches s ! x))"
    using b' bs by (simp add: nth_list_update settled_def)
  have lb: "length (batches ?s) = length (batches s)"
    using bs by simp
  from i show ?thesis
    unfolding in_flight_def by (simp add: fr lb cur len)
qed

lemma in_flight_resume: "in_flight b n u cs s \<Longrightarrow> in_flight b n u cs (resume b' s)"
proof (cases "b' < length (batches s) \<and> cursor (batches s ! b') < length (slots (batches s ! b'))")
  case False
  assume i: "in_flight b n u cs s"
  from False have "resume b' s = s" by (auto simp: resume_def Let_def)
  with i show ?thesis by simp
next
  case True
  assume i: "in_flight b n u cs s"
  from True i have e: "b' = b"
    unfolding in_flight_def
    by (metis less_Suc_eq not_le)
  let ?c = "cursor (batches s ! b)"
  from True e i have c: "?c < n" and bl: "b < length (batches s)"
    by (simp_all add: in_flight_def)
  show ?thesis
  proof (cases "snd (slots (batches s ! b) ! ?c)")
    case Pending
    with True e have "resume b' s = s" by (simp add: resume_def Let_def)
    with i show ?thesis by simp
  next
    case (Fulfilled r)
    let ?s = "resume b s"
    from Fulfilled True e i have bs: "batches ?s = (batches s)[b := (batches s ! b)\<lparr>cursor := Suc ?c\<rparr>]"
      and us: "updates ?s = updates s @ [(b, ?c, r)]"
      and ld: "isLoading ?s = (if Suc ?c = n then False else isLoading s)"
      and cl: "calls ?s = calls s"
      by (simp_all add: resume_def Let_def in_flight_def)
    have cur: "\<And>x. x < length (batches s) \<Longrightarrow>
        cursor (batches ?s ! x) = (if x = b then Suc ?c else cursor (batches s ! x))"
      using bl bs by (simp add: nth_list_update)
    have len: "\<And>x. x < length (batches s) \<Longrightarrow> length (slots (batches ?s ! x)) = length (slots (batches s ! x))"
      using bl bs by (simp add: nth_list_update)
    have lb: "length (batches ?s) = length (batches s)"
      using bs by simp
    from i c have "in_flight b n u cs ?s"
      unfolding in_flight_def by (auto simp: us ld cl lb cur len)
    with e show ?thesis by simp
  qed
qed

lemma in_flight_run:
  "in_flight b n u cs s \<Longrightarrow> \<forall>e \<in> set es. network_event e \<Longrightarrow> in_flight b n u cs (run es s)"
proof (induction es arbitrary: s)
  case Nil
  then show ?case by simp
next
  case (Cons e es)
  from Cons.prems(2) have ne: "network_event e" and rest: "\<forall>e \<in> set es. network_event e"
    by simp_all
  from ne Cons.prems(1) have "in_flight b n u cs (step e s)"
    by (cases e) (simp_all add: in_flight_settle in_flight_resume)
  from Cons.IH [OF this rest] show ?case by simp
qed

lemma generate_in_flight:
  assumes q: "filter (\<lambda>img. status img = Queued) (images s) \<noteq> []"
    and idle: "\<forall>B \<in> set (batches s). length (slots B) \<le> cursor B"
  shows "in_flight (length (batches s)) (length (filter (\<lambda>img. status img = Queued) (images s)))
     (length (updates s)) (calls (handleGenerateAllNames s)) (handleGenerateAllNames s)"
  using q idle by (simp add: in_flight_def handleGenerateAllNames_def Let_def nth_append)

lemma settle_answered:
  assumes b: "b < length (batches s)"
  shows "answered b s \<union> ({k} \<inter> {..<length (slots (batches s ! b))}) \<subseteq> answered b (settle b k out s)"
proof (cases "k < length (slots (batches s ! b)) \<and> snd (slots (batches s ! b) ! k) = Pending")
  case True
  with b have bs: "batches (settle b k out s) = (batches s)[b := settled (batches s ! b) k out]"
    by (simp add: settle_def Let_def settled_def)
  from b True show ?thesis
    unfolding answered_def bs by (auto simp: settled_def nth_list_update)
next
  case False
  with b have "settle b k out s = s" by (auto simp: settle_def Let_def)
  with False show ?thesis by (auto simp: answered_def)
qed

lemma settle_cursor: "cursor (batches (settle b k out s) ! b') = cursor (batches s ! b')"
  by (cases "b' = b") (auto simp: settle_def Let_def nth_list_update)

lemma settle_length: "length (slots (batches (settle b k out s) ! b')) = length (slots (batches s ! b'))"
  by (cases "b' = b") (auto simp: settle_def Let_def nth_list_update)

lemma settle_batches_length: "length (batches (settle b k out s)) = length (batches s)"
  by (simp add: settle_def Let_def)

lemma settle_all:
  "b < length (batches s) \<Longrightarrow>
   answered b s \<union> (set ks \<inter> {..<length (slots (batches s ! b))})
     \<subseteq> answered b (run (map (\<lambda>k. Settle b k (out k)) ks) s) \<and>
   cursor (batches (run (map (\<lambda>k. Settle b k (out k)) ks) s) ! b) = cursor (batches s ! b)"
proof (induction ks arbitrary: s)
  case Nil
  show ?case by simp
next
  case (Cons k ks)
  let ?s = "settle b k (out k) s"
  from Cons.prems have b: "b < length (batches ?s)" by (simp add: settle_batches_length)
  from Cons.IH [OF b] settle_answered [OF Cons.prems, of k "out k"]
  show ?case by (auto simp: settle_cursor settle_length)
qed

lemma resume_all:
  "in_flight b n u cs s \<Longrightarrow> {cursor (batches s ! b)..<n} \<subseteq> answered b s \<Longrightarrow>
   cursor (batches (run (replicate m (Resume b)) s) ! b) = min (cursor (batches s ! b) + m) n"
proof (induction m arbitrary: s)
  case 0
  then show ?case by (simp add: in_flight_def)
next
  case (Suc m)
  let ?c = "cursor (batches s ! b)"
  from Suc.prems(1) have bl: "b < length (batches s)" and n: "length (slots (batches s ! b)) = n"
    and cn: "?c \<le> n" by (simp_all add: in_flight_def)
  show ?case
  proof (cases "?c < n")
    case False
    with n bl have same: "resume b s = s" by (simp add: resume_def Let_def)
    from False cn have "?c = n" by simp
    with Suc.IH [OF Suc.prems] same show ?thesis by simp
  next
    case True
    with Suc.prems(2) have "?c \<in> answered b s" by auto
    then obtain r where f: "snd (slots (batches s ! b) ! ?c) = Fulfilled r"
      unfolding answered_def by (cases "snd (slots (batches s ! b) ! ?c)") auto
    let ?s = "resume b s"
    from f True n bl have bs: "batches ?s = (batches s)[b := (batches s ! b)\<lparr>cursor := Suc ?c\<rparr>]"
      by (simp add: resume_def Let_def)
    with bl have c': "cursor (batches ?s ! b) = Suc ?c"
      and sl: "slots (batches ?s ! b) = slots (batches s ! b)" by simp_all
    have "{Suc ?c..<n} \<subseteq> {?c..<n}" by auto
    with Suc.prems(2) have "{Suc ?c..<n} \<subseteq> answered b s" by blast
    moreover have "answered b ?s = answered b s"
      unfolding answered_def sl ..
    ultimately have a: "{cursor (batches ?s ! b)..<n} \<subseteq> answered b ?s"
      unfolding c' by simp
    from Suc.IH [OF in_flight_resume [OF Suc.prems(1)] a] show ?thesis
      by (simp add: c')
  qed
qed

lemma complete_schedule_cursor:
  assumes i: "in_flight b n u cs s" and c0: "cursor (batches s ! b) = 0"
  shows "\<not> isLoading (run (map (\<lambda>k. Settle b k (out k)) [0..<n] @ replicate n (Resume b)) s) \<and>
     cursor (batches (run (map (\<lambda>k. Settle b k (out k)) [0..<n] @ replicate n (Resume b)) s) ! b) = n"
proof -
  let ?es1 = "map (\<lambda>k. Settle b k (out k)) [0..<n]"
  let ?s1 = "run ?es1 s"
  from i have bl: "b < length (batches s)" and n: "length (slots (batches s ! b)) = n"
    by (simp_all add: in_flight_def)
  have net1: "\<forall>e \<in> set ?es1. network_event e" by auto
  from in_flight_run [OF i net1] have i1: "in_flight b n u cs ?s1" .
  from settle_all [OF bl, of "[0..<n]" out] n c0
  have a: "{cursor (batches ?s1 ! b)..<n} \<subseteq> answered b ?s1" and c1: "cursor (batches ?s1 ! b) = 0"
    by auto
  from resume_all [OF i1 a, of n] c1
  have cn: "cursor (batches (run (replicate n (Resume b)) ?s1) ! b) = n" by simp
  have net2: "\<forall>e \<in> set (replicate n (Resume b)). network_event e" by auto
  from in_flight_run [OF i1 net2] cn
  have "\<not> isLoading (run (replicate n (Resume b)) ?s1) \<and>
     cursor (batches (run (replicate n (Resume b)) ?s1) ! b) = n"
    by (simp add: in_flight_def)
  then show ?thesis unfolding run_append .
qed

text \<open>
  Other events than service calls coming back and loop steps leave the invocation in
  flight alone, unless they are clear-all or another generate-all.
\<close>

lemma in_flight_frame:
  "in_flight b n u cs s \<Longrightarrow> isLoading s' = isLoading s \<Longrightarrow> batches s' = batches s \<Longrightarrow>
   updates s' = updates s \<Longrightarrow> calls s' = calls s \<Longrightarrow> in_flight b n u cs s'"
  by (simp add: in_flight_def)

lemma processFiles_pass:
  "isLoading (processFiles files mk_id s) = isLoading s \<and>
   batches (processFiles files mk_id s) = batches s \<and>
   updates (processFiles files mk_id s) = updates s \<and>
   calls (processFiles files mk_id s) = calls s"
  by (simp add: processFiles_def Let_def split: option.splits sum.splits)

lemma handleFetchFromUrls_pass:
  "isLoading (handleFetchFromUrls outcome mk_id s) = isLoading s \<and>
   batches (handleFetchFromUrls outcome mk_id s) = batches s \<and>
   updates (handleFetchFromUrls outcome mk_id s) = updates s \<and>
   calls (handleFetchFromUrls outcome mk_id s) = calls s"
  by (simp add: handleFetchFromUrls_def Let_def)

lemma handleCopyAll_pass:
  "isLoading (handleCopyAll s) = isLoading s \<and> batches (handleCopyAll s) = batches s \<and>
   updates (handleCopyAll s) = updates s \<and> calls (handleCopyAll s) = calls s"
  by (simp add: handleCopyAll_def Let_def)

lemma timeout_pass:
  "isLoading (timeout k s) = isLoading s \<and> batches (timeout k s) = batches s \<and>
   updates (timeout k s) = updates s \<and> calls (timeout k s) = calls s"
proof (cases "k < length (timers s)")
  case True
  then show ?thesis by (cases "snd (timers s ! k)") (simp_all add: timeout_def)
next
  case False
  then show ?thesis by (simp add: timeout_def)
qed

lemma in_flight_step:
  assumes i: "in_flight b n u cs s" and q: "quiet e"
  shows "in_flight b n u cs (step e s)"
proof (cases e)
  case (ProcessFiles files mk_id)
  from in_flight_frame [OF i] processFiles_pass [of files mk_id s] show ?thesis
    unfolding ProcessFiles step.simps by blast
next
  case (FetchFromUrls outcome mk_id)
  from in_flight_frame [OF i] handleFetchFromUrls_pass [of outcome mk_id s] show ?thesis
    unfolding FetchFromUrls step.simps by blast
next
  case (SetUrlInput t)
  from i show ?thesis unfolding SetUrlInput by (simp add: in_flight_def)
next
  case (SetNameStyle style)
  from i show ?thesis unfolding SetNameStyle by (simp add: in_flight_def)
next
  case GenerateAll
  with q show ?thesis by simp
next
  case (Settle b' k out)
  from i show ?thesis unfolding Settle step.simps by (rule in_flight_settle)
next
  case (Resume b')
  from i show ?thesis unfolding Resume step.simps by (rule in_flight_resume)
next
  case (RemoveImage x)
  from i show ?thesis unfolding RemoveImage by (simp add: in_flight_def removeImage_def)
next
  case ClearAll
  with q show ?thesis by simp
next
  case (CopyToClipboard x t)
  from i show ?thesis unfolding CopyToClipboard by (simp add: in_flight_def handleCopyToClipboard_def)
next
  case CopyAll
  from in_flight_frame [OF i] handleCopyAll_pass [of s] show ?thesis
    unfolding CopyAll step.simps by blast
next
  case (Timeout k)
  from in_flight_frame [OF i] timeout_pass [of k s] show ?thesis
    unfolding Timeout step.simps by blast
next
  case DismissError
  from i show ?thesis unfolding DismissError by (simp add: in_flight_def)
qed

lemma in_flight_quiet_run:
  "in_flight b n u cs s \<Longrightarrow> \<forall>e \<in> set es. quiet e \<Longrightarrow> in_flight b n u cs (run es s)"
proof (induction es arbitrary: s)
  case Nil
  then show ?case by simp
next
  case (Cons e es)
  from Cons.prems(2) have q: "quiet e" and rest: "\<forall>e \<in> set es. quiet e" by simp_all
  from Cons.IH [OF in_flight_step [OF Cons.prems(1) q] rest] show ?case by simp
qed

lemma fresh_run_network: "\<forall>e \<in> set es. network_event e \<Longrightarrow> fresh_run es s"
proof (induction es arbitrary: s)
  case Nil
  show ?case by simp
next
  case (Cons e es)
  from Cons.prems have "network_event e" by simp
  then have "\<And>x. fresh e x" by (cases e) simp_all
  with Cons show ?case by simp
qed

lemma pass_items:
  assumes c: "consistent (images s') (batches s')" and a: "applied_inv (images s') (batches s')"
    and b: "b < length (batches s')" and m: "map fst (slots (batches s' ! b)) = q"
  shows "(\<forall>k < cursor (batches s' ! b). \<exists>r. snd (slots (batches s' ! b) ! k) = Fulfilled r \<and>
            (\<forall>img \<in> set (images s'). img_id img = img_id (q ! k) \<longrightarrow> carries img r)) \<and>
         (\<forall>k < length q. cursor (batches s' ! b) \<le> k \<longrightarrow>
            (\<forall>img \<in> set (images s'). img_id img = img_id (q ! k) \<longrightarrow> status img = Generating))"
proof -
  have len: "length (slots (batches s' ! b)) = length q"
    using m by (metis length_map)
  have sid: "\<And>k. k < length q \<Longrightarrow> slot_id (batches s') b k = img_id (q ! k)"
  proof -
    fix k assume k: "k < length q"
    with len have "map fst (slots (batches s' ! b)) ! k = fst (slots (batches s' ! b) ! k)"
      by simp
    then show "slot_id (batches s') b k = img_id (q ! k)"
      unfolding slot_id_def m by simp
  qed
  have 1: "\<forall>k < cursor (batches s' ! b). \<exists>r. snd (slots (batches s' ! b) ! k) = Fulfilled r \<and>
            (\<forall>img \<in> set (images s'). img_id img = img_id (q ! k) \<longrightarrow> carries img r)"
  proof (intro allI impI)
    fix k assume k: "k < cursor (batches s' ! b)"
    with a b have kl: "k < length (slots (batches s' ! b))" and
      ex: "\<exists>r. snd (slots (batches s' ! b) ! k) = Fulfilled r \<and>
        (\<forall>img \<in> set (images s'). img_id img = slot_id (batches s') b k \<longrightarrow> carries img r)"
      unfolding applied_inv_def by blast+
    from kl len have "k < length q" by simp
    from sid [OF this] ex
    show "\<exists>r. snd (slots (batches s' ! b) ! k) = Fulfilled r \<and>
            (\<forall>img \<in> set (images s'). img_id img = img_id (q ! k) \<longrightarrow> carries img r)"
      by simp
  qed
  have 2: "\<forall>k < length q. cursor (batches s' ! b) \<le> k \<longrightarrow>
            (\<forall>img \<in> set (images s'). img_id img = img_id (q ! k) \<longrightarrow> status img = Generating)"
  proof (intro allI impI ballI)
    fix k img
    assume k: "k < length q" and ck: "cursor (batches s' ! b) \<le> k"
      and img: "img \<in> set (images s')" and e: "img_id img = img_id (q ! k)"
    from k ck b len have p: "pending (batches s') b k" by (simp add: pending_def)
    from sid [OF k] e have "slot_id (batches s') b k = img_id img" by simp
    with c p img show "status img = Generating"
      unfolding consistent_def by blast
  qed
  from 1 2 show ?thesis ..
qed


lemma pass_items_tagged:
  assumes c: "consistent (images s') (batches s')" and a: "applied_inv (images s') (batches s')"
    and b: "b < length (batches s')" and m: "map fst (slots (batches s' ! b)) = q"
  shows "\<forall>k < cursor (batches s' ! b). \<exists>r. snd (slots (batches s' ! b) ! k) = Fulfilled r \<and>
            result_id r = img_id (q ! k) \<and>
            (\<forall>img \<in> set (images s'). img_id img = img_id (q ! k) \<longrightarrow> carries img r)"
proof (intro allI impI)
  fix k assume k: "k < cursor (batches s' ! b)"
  from pass_items [OF c a b m] k obtain r where
    r: "snd (slots (batches s' ! b) ! k) = Fulfilled r"
       "\<forall>img \<in> set (images s'). img_id img = img_id (q ! k) \<longrightarrow> carries img r"
    by blast
  from a b k have kl: "k < length (slots (batches s' ! b))"
    unfolding applied_inv_def by blast
  from c have "tagged (batches s')" by (simp add: consistent_def)
  with b kl r(1) have "result_id r = slot_id (batches s') b k"
    unfolding tagged_def by blast
  also have "\<dots> = img_id (map fst (slots (batches s' ! b)) ! k)"
    using kl by (simp add: slot_id_def)
  finally have "result_id r = img_id (q ! k)" unfolding m .
  with r show "\<exists>r. snd (slots (batches s' ! b) ! k) = Fulfilled r \<and>
            result_id r = img_id (q ! k) \<and>
            (\<forall>img \<in> set (images s'). img_id img = img_id (q ! k) \<longrightarrow> carries img r)"
    by blast
qed

text \<open>
  Claim C2, as stated, fails. Generate with one item, clear all while the call is out, add
  a file and generate again: the list holds one queued item, the loading flag is down, the
  invocation sets it and turns the item into a generating one. Then the call of the first
  invocation comes back and its loop goes on: the flag is cleared, although the one result
  of the second invocation has not been applied and its item is still generating. Also,
  with no invocation before: clear-all during the pass clears the flag while both items
  are waiting for their results. And once both results of a pass have been applied, the
  flag is set again by the next generate-all, so that the claim can speak only of the
  time before it.
\<close>

theorem generate_all_flag_cleared_early:
  "fresh_run abandoned_pass initial \<and>
   map status (images (run (take 4 abandoned_pass) initial)) = [Queued] \<and>
   \<not> isLoading (run (take 4 abandoned_pass) initial) \<and>
   isLoading (run (take 5 abandoned_pass) initial) \<and>
   map status (images (run (take 5 abandoned_pass) initial)) = [Generating] \<and>
   map status (images (run abandoned_pass initial)) = [Generating] \<and>
   cursor (batches (run abandoned_pass initial) ! 1) = 0 \<and>
   \<not> isLoading (run abandoned_pass initial) \<and>
   batches (run example_upload initial) = [] \<and>
   map status (images (run (example_upload @ [GenerateAll]) initial)) = [Generating, Generating] \<and>
   isLoading (run (example_upload @ [GenerateAll]) initial) \<and>
   cursor (batches (run (example_upload @ [GenerateAll, ClearAll]) initial) ! 0) = 0 \<and>
   \<not> isLoading (run (example_upload @ [GenerateAll, ClearAll]) initial) \<and>
   cursor (batches (run (example_upload @ GenerateAll # example_pass @ [GenerateAll]) initial) ! 0) = 2 \<and>
   isLoading (run (example_upload @ GenerateAll # example_pass @ [GenerateAll]) initial)"
  by code_simp

text \<open>
  Claim C2, amended. Let the list be reached from the empty application with fresh ids
  and hold \<open>N \<ge> 1\<close> queued items, let no earlier invocation have results left to apply,
  and let any events follow the invocation except clear-all and another generate-all.
  The invocation turns every queued item, and no other, into a generating one in a
  single update of the list; it issues one call per queued item, in the order of the
  list, with the item's \<open>base64\<close> and \<open>mimeType\<close> and the style selected at that moment,
  and no call is issued afterwards; the loading flag is set. From then on the invocation
  keeps the queued items as its snapshot, and with \<open>c\<close> its cursor: the flag is set
  exactly while \<open>c < N\<close>; the items of the list with the ids of the first \<open>c\<close> queued items
  show the results of their calls (status and name, or status and message); the items
  with the ids of the other queued items are still generating. When every call has come
  back and the loop has gone on \<open>N\<close> times, all \<open>N\<close> results show in the list and the flag
  is cleared.
\<close>

theorem generate_all_one_call_per_queued_item:
  assumes fr: "fresh_run (es0 @ GenerateAll # es) initial"
    and q: "filter (\<lambda>img. status img = Queued) (images (run es0 initial)) \<noteq> []"
    and idle: "\<forall>B \<in> set (batches (run es0 initial)). length (slots B) \<le> cursor B"
    and quiet: "\<forall>e \<in> set es. quiet e"
  shows "let s = run es0 initial;
             queued = filter (\<lambda>img. status img = Queued) (images s);
             b = length (batches s);
             s1 = step GenerateAll s;
             s' = run es s1;
             c = cursor (batches s' ! b)
         in length (images s1) = length (images s) \<and>
            (\<forall>i < length (images s). images s1 ! i =
               (if status (images s ! i) = Queued then (images s ! i)\<lparr>status := Generating\<rparr>
                else images s ! i)) \<and>
            calls s1 = calls s @
               map (\<lambda>img. \<lparr>call_data = base64 img, call_mimeType = mimeType img,
                             call_style = nameStyle s\<rparr>) queued \<and>
            isLoading s1 \<and>
            calls s' = calls s1 \<and>
            length (batches s') = Suc b \<and>
            map fst (slots (batches s' ! b)) = queued \<and>
            c \<le> length queued \<and>
            (isLoading s' \<longleftrightarrow> c < length queued) \<and>
            (\<forall>k < c. \<exists>r. snd (slots (batches s' ! b) ! k) = Fulfilled r \<and>
                result_id r = img_id (queued ! k) \<and>
                (\<forall>img \<in> set (images s'). img_id img = img_id (queued ! k) \<longrightarrow> carries img r)) \<and>
            (\<forall>k < length queued. c \<le> k \<longrightarrow>
                (\<forall>img \<in> set (images s'). img_id img = img_id (queued ! k)
                    \<longrightarrow> status img = Generating)) \<and>
            (\<forall>out. let done = run (map (\<lambda>k. Settle b k (out k)) [0..<length queued] @
                                    replicate (length queued) (Resume b)) s1
                   in \<not> isLoading done \<and>
                      cursor (batches done ! b) = length queued \<and>
                      (\<forall>k < length queued. \<exists>r. snd (slots (batches done ! b) ! k) = Fulfilled r \<and>
                          result_id r = img_id (queued ! k) \<and>
                          (\<forall>img \<in> set (images done). img_id img = img_id (queued ! k)
                              \<longrightarrow> carries img r)))"
proof -
  define s where "s = run es0 initial"
  define queued where "queued = filter (\<lambda>img. status img = Queued) (images s)"
  define b where "b = length (batches s)"
  define s1 where "s1 = step GenerateAll s"
  define s' where "s' = run es s1"
  define c where "c = cursor (batches s' ! b)"
  have s1h: "s1 = handleGenerateAllNames s" by (simp add: s1_def)
  have qs: "filter (\<lambda>img. status img = Queued) (images s) \<noteq> []"
    unfolding s_def by (rule q)
  have idles: "\<forall>B \<in> set (batches s). length (slots B) \<le> cursor B"
    unfolding s_def by (rule idle)
  have i: "in_flight b (length queued) (length (updates s)) (calls s1) s1"
    unfolding b_def queued_def s1h using qs idles by (rule generate_in_flight)
  have c0: "cursor (batches s1 ! b) = 0"
    unfolding s1h b_def using qs by (simp add: handleGenerateAllNames_def Let_def)
  have 1: "length (images s1) = length (images s)"
    unfolding s1h using qs by (simp add: handleGenerateAllNames_def Let_def)
  have 2: "\<forall>i < length (images s). images s1 ! i =
        (if status (images s ! i) = Queued then (images s ! i)\<lparr>status := Generating\<rparr>
         else images s ! i)"
    unfolding s1h using qs by (simp add: handleGenerateAllNames_def Let_def)
  have 3: "calls s1 = calls s @
        map (\<lambda>img. \<lparr>call_data = base64 img, call_mimeType = mimeType img,
                      call_style = nameStyle s\<rparr>) queued"
    unfolding s1h queued_def using qs by (simp add: handleGenerateAllNames_def Let_def)
  have 4: "isLoading s1"
    unfolding s1h using qs by (simp add: handleGenerateAllNames_def Let_def)
  have i': "in_flight b (length queued) (length (updates s)) (calls s1) s'"
    unfolding s'_def using i quiet by (rule in_flight_quiet_run)
  then have 5: "calls s' = calls s1" and 6: "length (batches s') = Suc b"
    and 8: "c \<le> length queued" and 9: "isLoading s' \<longleftrightarrow> c < length queued"
    by (simp_all add: in_flight_def c_def)
  from generate_snapshot [OF qs]
  have b1: "b < length (batches s1)" and m1: "map fst (slots (batches s1 ! b)) = queued"
    by (simp_all add: b_def s1_def queued_def)
  have snap: "\<And>xs. b < length (batches (run xs s1)) \<and>
      map fst (slots (batches (run xs s1) ! b)) = queued"
    using run_snapshot [OF b1] m1 by simp
  from snap [of es] have bl: "b < length (batches s')"
    and 7: "map fst (slots (batches s' ! b)) = queued"
    by (simp_all add: s'_def)
  have reach: "\<And>xs. fresh_run xs s1 \<Longrightarrow>
      consistent (images (run xs s1)) (batches (run xs s1)) \<and>
      applied_inv (images (run xs s1)) (batches (run xs s1))"
  proof -
    fix xs assume x: "fresh_run xs s1"
    from fr have "fresh_run es0 initial" by (simp add: fresh_run_append)
    with x have "fresh_run (es0 @ GenerateAll # xs) initial"
      by (simp add: fresh_run_append s1_def s_def)
    from reach_sound [OF this]
    show "consistent (images (run xs s1)) (batches (run xs s1)) \<and>
      applied_inv (images (run xs s1)) (batches (run xs s1))"
      by (simp add: run_append s1_def s_def)
  qed
  from fr have "fresh_run es s1" by (simp add: fresh_run_append s1_def s_def)
  from reach [OF this] have co: "consistent (images s') (batches s')"
    and ap: "applied_inv (images s') (batches s')"
    by (simp_all add: s'_def)
  have 10: "\<forall>k < c. \<exists>r. snd (slots (batches s' ! b) ! k) = Fulfilled r \<and>
                result_id r = img_id (queued ! k) \<and>
                (\<forall>img \<in> set (images s'). img_id img = img_id (queued ! k) \<longrightarrow> carries img r)"
    unfolding c_def using co ap bl 7 by (rule pass_items_tagged)
  have 11: "\<forall>k < length queued. c \<le> k \<longrightarrow>
                (\<forall>img \<in> set (images s'). img_id img = img_id (queued ! k)
                    \<longrightarrow> status img = Generating)"
    unfolding c_def using pass_items [OF co ap bl 7] by (rule conjunct2)
  have 12: "\<forall>out. let done = run (map (\<lambda>k. Settle b k (out k)) [0..<length queued] @
                                    replicate (length queued) (Resume b)) s1
                   in \<not> isLoading done \<and>
                      cursor (batches done ! b) = length queued \<and>
                      (\<forall>k < length queued. \<exists>r. snd (slots (batches done ! b) ! k) = Fulfilled r \<and>
                          result_id r = img_id (queued ! k) \<and>
                          (\<forall>img \<in> set (images done). img_id img = img_id (queued ! k)
                              \<longrightarrow> carries img r))"
  proof
    fix out
    define sched where "sched = map (\<lambda>k. Settle b k (out k)) [0..<length queued] @
                                    replicate (length queued) (Resume b)"
    define fin where "fin = run sched s1"
    have "\<forall>e \<in> set sched. network_event e" by (auto simp: sched_def)
    then have "fresh_run sched s1" by (rule fresh_run_network)
    from reach [OF this] have cd: "consistent (images fin) (batches fin)"
      and ad: "applied_inv (images fin) (batches fin)"
      by (simp_all add: fin_def)
    from snap [of sched] have bd: "b < length (batches fin)"
      and md: "map fst (slots (batches fin ! b)) = queued"
      by (simp_all add: fin_def)
    from complete_schedule_cursor [OF i c0, of out]
    have l: "\<not> isLoading fin" and cu: "cursor (batches fin ! b) = length queued"
      by (simp_all add: fin_def sched_def)
    from pass_items_tagged [OF cd ad bd md]
    have "\<forall>k < length queued. \<exists>r. snd (slots (batches fin ! b) ! k) = Fulfilled r \<and>
                          result_id r = img_id (queued ! k) \<and>
                          (\<forall>img \<in> set (images fin). img_id img = img_id (queued ! k)
                              \<longrightarrow> carries img r)"
      unfolding cu .
    with l cu show "let done = run (map (\<lambda>k. Settle b k (out k)) [0..<length queued] @
                                    replicate (length queued) (Resume b)) s1
                   in \<not> isLoading done \<and>
                      cursor (batches done ! b) = length queued \<and>
                      (\<forall>k < length queued. \<exists>r. snd (slots (batches done ! b) ! k) = Fulfilled r \<and>
                          result_id r = img_id (queued ! k) \<and>
                          (\<forall>img \<in> set (images done). img_id img = img_id (queued ! k)
                              \<longrightarrow> carries img r))"
      unfolding Let_def fin_def sched_def by (simp only: simp_thms)
  qed
  note parts = 1 2 3 4 5 6 7 8 9 10 11 12
  show ?thesis
    unfolding Let_def
    by (intro conjI) (rule parts [unfolded Let_def c_def s'_def s1_def b_def queued_def s_def])+
qed

theorem generate_all_one_call_per_queued_item_witness:
  "fresh_run (example_upload @ GenerateAll # example_pass) initial \<and>
   map status (images (run example_upload initial)) = [Queued, Queued] \<and>
   batches (run example_upload initial) = [] \<and>
   list_all quiet example_pass \<and>
   calls (step GenerateAll (run example_upload initial)) =
     [\<lparr>call_data = Some ''AAAA'', call_mimeType = ''image/png'', call_style = Descriptive\<rparr>,
      \<lparr>call_data = Some ''BBBB'', call_mimeType = ''image/jpeg'', call_style = Descriptive\<rparr>] \<and>
   calls (run example_pass (step GenerateAll (run example_upload initial)))
     = calls (step GenerateAll (run example_upload initial)) \<and>
   map status (images (step GenerateAll (run example_upload initial)))
     = [Generating, Generating] \<and>
   map status (images (run (take 1 example_pass) (step GenerateAll (run example_upload initial))))
     = [Generating, Generating] \<and>
   isLoading (run (take 1 example_pass) (step GenerateAll (run example_upload initial))) \<and>
   map status (images (run (take 5 example_pass) (step GenerateAll (run example_upload initial))))
     = [Error, Generating, Queued] \<and>
   cursor (batches (run (take 5 example_pass) (step GenerateAll (run example_upload initial))) ! 0) = 1 \<and>
   isLoading (run (take 5 example_pass) (step GenerateAll (run example_upload initial))) \<and>
   map status (images (run example_pass (step GenerateAll (run example_upload initial))))
     = [Error, Completed, Queued] \<and>
   map suggestedName (images (run example_pass (step GenerateAll (run example_upload initial))))
     = [None, Some ''Dusk'', None] \<and>
   cursor (batches (run example_pass (step GenerateAll (run example_upload initial))) ! 0) = 2 \<and>
   \<not> isLoading (run example_pass (step GenerateAll (run example_upload initial)))"
proof -
  have h1: "fresh_run (example_upload @ GenerateAll # example_pass) initial"
    by code_simp
  have h1': "fresh_run (example_upload @ GenerateAll # take 5 example_pass) initial"
    by code_simp
  have h2: "filter (\<lambda>img. status img = Queued) (images (run example_upload initial)) \<noteq> []"
    by code_simp
  have h3: "\<forall>B \<in> set (batches (run example_upload initial)). length (slots B) \<le> cursor B"
    by code_simp
  have h4: "\<forall>e \<in> set example_pass. quiet e"
    by code_simp
  have h4': "\<forall>e \<in> set (take 5 example_pass). quiet e"
    by code_simp
  have n: "length (filter (\<lambda>img. status img = Queued) (images (run example_upload initial))) = 2"
    "length (batches (run example_upload initial)) = 0"
    by code_simp+
  have c: "cursor (batches (run (take 5 example_pass) (step GenerateAll (run example_upload initial))) ! 0) = 1"
    "cursor (batches (run example_pass (step GenerateAll (run example_upload initial))) ! 0) = 2"
    by code_simp+
  have e: "map status (images (run example_upload initial)) = [Queued, Queued]"
    "batches (run example_upload initial) = []" "list_all quiet example_pass"
    by code_simp+
  have v: "calls (step GenerateAll (run example_upload initial)) =
     [\<lparr>call_data = Some ''AAAA'', call_mimeType = ''image/png'', call_style = Descriptive\<rparr>,
      \<lparr>call_data = Some ''BBBB'', call_mimeType = ''image/jpeg'', call_style = Descriptive\<rparr>]"
    "map status (images (step GenerateAll (run example_upload initial)))
       = [Generating, Generating]"
    "map status (images (run (take 1 example_pass) (step GenerateAll (run example_upload initial))))
       = [Generating, Generating]"
    "isLoading (run (take 1 example_pass) (step GenerateAll (run example_upload initial)))"
    "map status (images (run (take 5 example_pass) (step GenerateAll (run example_upload initial))))
       = [Error, Generating, Queued]"
    "map status (images (run example_pass (step GenerateAll (run example_upload initial))))
       = [Error, Completed, Queued]"
    "map suggestedName (images (run example_pass (step GenerateAll (run example_upload initial))))
       = [None, Some ''Dusk'', None]"
    by code_simp+
  note a = generate_all_one_call_per_queued_item [OF h1 h2 h3 h4, unfolded Let_def]
  note b = generate_all_one_call_per_queued_item [OF h1' h2 h3 h4', unfolded Let_def]
  note c2 = conjunct2
  have t1: "calls (run example_pass (step GenerateAll (run example_upload initial)))
       = calls (step GenerateAll (run example_upload initial))"
    by (rule a [THEN c2, THEN c2, THEN c2, THEN c2, THEN conjunct1])
  have t2: "isLoading (run example_pass (step GenerateAll (run example_upload initial))) \<longleftrightarrow>
       cursor (batches (run example_pass (step GenerateAll (run example_upload initial))) !
         length (batches (run example_upload initial)))
       < length (filter (\<lambda>img. status img = Queued) (images (run example_upload initial)))"
    by (rule a [THEN c2, THEN c2, THEN c2, THEN c2, THEN c2, THEN c2, THEN c2, THEN c2,
          THEN conjunct1])
  have t3: "isLoading (run (take 5 example_pass) (step GenerateAll (run example_upload initial))) \<longleftrightarrow>
       cursor (batches (run (take 5 example_pass) (step GenerateAll (run example_upload initial))) !
         length (batches (run example_upload initial)))
       < length (filter (\<lambda>img. status img = Queued) (images (run example_upload initial)))"
    by (rule b [THEN c2, THEN c2, THEN c2, THEN c2, THEN c2, THEN c2, THEN c2, THEN c2,
          THEN conjunct1])
  from t2 have l2: "\<not> isLoading (run example_pass (step GenerateAll (run example_upload initial)))"
    unfolding n c by simp
  from t3 have l3: "isLoading (run (take 5 example_pass) (step GenerateAll (run example_upload initial)))"
    unfolding n c by simp
  from h1 e v t1 c l2 l3 show ?thesis by (simp only: simp_thms)
qed

section \<open>Copying the names\<close>

lemma join_nonempty: "ps \<noteq> [] \<Longrightarrow> hd ps \<noteq> [] \<Longrightarrow> join sep ps \<noteq> []"
  by (induction sep ps rule: join.induct) auto

text \<open>
  Claim C5, as stated, fails. Of two completed items, the second with the empty string as
  its suggested name, copy-all puts only the line of the first on the clipboard; the
  listing of every completed item has two lines.
\<close>

theorem handleCopyAll_omits_empty_name:
  "clipboard (handleCopyAll two_completed) = Some ''a.png: Dawn'' \<and>
   spec_copy_all_text (images two_completed) = ''a.png: Dawn'' @ [CHR 0x0A] @ ''b.png: '' \<and>
   clipboard (handleCopyAll two_completed) \<noteq> Some (spec_copy_all_text (images two_completed))"
  by (simp add: handleCopyAll_def two_completed_def initial_def spec_copy_all_text_def
      truthy_def in_template_def)

text \<open>
  Claim C5, amended. When some item is completed with a non-empty suggested name, copy-all
  writes to the clipboard the newline-joined listing \<open>name: suggestedName\<close> of the
  completed items whose suggested name is non-empty, in list order, sets the copied
  indicator \<open>all\<close>, and sets a timer of 2000 milliseconds whose expiry resets the
  indicator. When no item is completed with a non-empty suggested name, copy-all changes
  nothing.
\<close>

theorem handleCopyAll_lists_named_completed_items:
  "(if \<exists>img \<in> set (images s). status img = Completed \<and> truthy (suggestedName img)
    then handleCopyAll s =
           s\<lparr>clipboard := Some (spec_copy_all_text
                                  (filter (\<lambda>img. truthy (suggestedName img)) (images s))),
             copiedStates := [''all'' \<mapsto> True],
             timers := timers s @ [(2000, ResetAll)]\<rparr> \<and>
         copiedStates (timeout (length (timers s)) (handleCopyAll s)) ''all'' = Some False
    else handleCopyAll s = s)"
proof (cases "\<exists>img \<in> set (images s). status img = Completed \<and> truthy (suggestedName img)")
  case True
  define listed where
    "listed = filter (\<lambda>img. status img = Completed \<and> truthy (suggestedName img)) (images s)"
  define lines where
    "lines = map (\<lambda>img. name img @ '': '' @ in_template (suggestedName img)) listed"
  from True have "listed \<noteq> []"
    by (auto simp: listed_def filter_empty_conv)
  then have "lines \<noteq> []" and "hd lines \<noteq> []"
    by (auto simp: lines_def hd_map)
  then have ne: "join [CHR 0x0A] lines \<noteq> []"
    by (rule join_nonempty)
  have same: "spec_copy_all_text (filter (\<lambda>img. truthy (suggestedName img)) (images s))
      = join [CHR 0x0A] lines"
    by (simp add: spec_copy_all_text_def lines_def listed_def conj_commute)
  have eq: "handleCopyAll s =
      s\<lparr>clipboard := Some (join [CHR 0x0A] lines), copiedStates := [''all'' \<mapsto> True],
        timers := timers s @ [(2000, ResetAll)]\<rparr>"
    using ne by (simp add: handleCopyAll_def lines_def listed_def)
  have "copiedStates (timeout (length (timers s)) (handleCopyAll s)) ''all'' = Some False"
    by (simp add: eq timeout_def)
  with True eq same show ?thesis by (simp only: if_P if_True simp_thms)
next
  case False
  then have "filter (\<lambda>img. status img = Completed \<and> truthy (suggestedName img)) (images s) = []"
    by (auto simp: filter_empty_conv)
  then have "handleCopyAll s = s"
    by (simp add: handleCopyAll_def)
  with False show ?thesis by (simp only: if_not_P if_False simp_thms)
qed

theorem handleCopyAll_lists_named_completed_items_witness:
  "handleCopyAll two_completed =
     two_completed\<lparr>clipboard := Some ''a.png: Dawn'', copiedStates := [''all'' \<mapsto> True],
       timers := [(2000, ResetAll)]\<rparr> \<and>
   copiedStates (timeout 0 (handleCopyAll two_completed)) ''all'' = Some False \<and>
   handleCopyAll initial = initial"
  using handleCopyAll_lists_named_completed_items [of two_completed]
    handleCopyAll_lists_named_completed_items [of initial]
  by (simp add: two_completed_def initial_def spec_copy_all_text_def truthy_def in_template_def
      timeout_def)

end
